theory Spec2Isabelle
  imports Main "HOL-Library.Word" "HOL-Library.Multiset"
begin

unbundle bit_operations_syntax

section \<open>JitHashTable (src/coreclr/jit/jithashtable.h)\<close>

text \<open>
  The header defines a chained hash table over a bucket array whose length is taken from
  a table of primes. The embedding follows the header function by function.

  \<^item> \<open>unsigned\<close> is \<open>32 word\<close>, \<open>uint64_t\<close> is \<open>64 word\<close>; arithmetic wraps as in C++.
  \<^item> The bucket array \<open>Node** m_table\<close> is \<open>None\<close> for \<open>nullptr\<close> and \<open>Some bs\<close> for an
    allocated array; \<open>bs ! i\<close> is the chain hanging off bucket \<open>i\<close>, head first.
    A chain of nodes linked by \<open>m_next\<close> is the list of its \<open>(m_key, m_val)\<close> pairs; the
    empty list is the null chain. Nodes are owned by exactly one chain, so no aliasing is lost.
  \<^item> The checked build is modelled: a failing \<open>assert\<close> ends the call with \<open>AssertionFailed\<close>.
    \<open>Behavior::NoMemory()\<close> never returns and ends the call with \<open>NoMemory\<close>. Reading
    through a null or out-of-range bucket pointer, dividing by zero and shifting a 64-bit
    value by 64 or more have no defined result in C++; they end the call with
    \<open>UndefinedBehaviour\<close>.
  \<^item> The template parameter \<open>Behavior\<close> is its default \<open>JitHashTableBehavior\<close>. The template
    parameter \<open>KeyFuncs\<close> is a record of the two static functions the table calls.
  \<^item> \<open>jitPrimeInfo\<close> is only declared in the header (\<open>extern const JitPrimeInfo jitPrimeInfo[27]\<close>);
    its entries are defined elsewhere. Every function that reads it takes it as the
    parameter \<open>tbl\<close>.
  \<^item> The allocator is assumed to return the memory asked for.
\<close>

datatype error = AssertionFailed | NoMemory | UndefinedBehaviour

subsection \<open>JitHashTableBehavior\<close>

definition s_growth_factor_numerator :: "32 word" where
  "s_growth_factor_numerator = 3"

definition s_growth_factor_denominator :: "32 word" where
  "s_growth_factor_denominator = 2"

definition s_density_factor_numerator :: "32 word" where
  "s_density_factor_numerator = 3"

definition s_density_factor_denominator :: "32 word" where
  "s_density_factor_denominator = 4"

definition s_minimum_allocation :: "32 word" where
  "s_minimum_allocation = 7"

subsection \<open>JitPrimeInfo\<close>

record JitPrimeInfo =
  prime :: "32 word"
  magic :: "32 word"
  shift :: "32 word"

text \<open>The default constructor \<open>JitPrimeInfo()\<close>.\<close>

definition JitPrimeInfo_default :: JitPrimeInfo where
  "JitPrimeInfo_default = \<lparr>prime = 0, magic = 0, shift = 0\<rparr>"

text \<open>
  \<open>magicNumberDivide\<close>: both factors are widened to 64 bits, so the product cannot wrap;
  the shift count \<open>32 + shift\<close> is a 32-bit sum.
\<close>

definition magicNumberDivide :: "JitPrimeInfo \<Rightarrow> 32 word \<Rightarrow> error + 32 word" where
  "magicNumberDivide d numerator =
     (let num = (ucast numerator :: 64 word);
          mag = (ucast (magic d) :: 64 word);
          cnt = 32 + shift d
      in if 64 \<le> unat cnt then Inl UndefinedBehaviour
         else Inr (ucast (drop_bit (unat cnt) (num * mag))))"

text \<open>
  \<open>magicNumberRem\<close>: the assertion evaluates \<open>numerator % prime\<close>, which has no defined
  result for \<open>prime = 0\<close>.
\<close>

definition magicNumberRem :: "JitPrimeInfo \<Rightarrow> 32 word \<Rightarrow> error + 32 word" where
  "magicNumberRem d numerator =
     (case magicNumberDivide d numerator of
        Inl e \<Rightarrow> Inl e
      | Inr dv \<Rightarrow>
          (let result = numerator - dv * prime d
           in if prime d = 0 then Inl UndefinedBehaviour
              else if result \<noteq> numerator mod prime d then Inl AssertionFailed
              else Inr result))"

subsection \<open>KeyFuncs\<close>

record 'k KeyFuncs =
  GetHashCode :: "'k \<Rightarrow> 32 word"
  Equals :: "'k \<Rightarrow> 'k \<Rightarrow> bool"

text \<open>
  \<open>JitSmallPrimitiveKeyFuncs<T>\<close> for an unsigned 32-bit \<open>T\<close>: the hash code is the key
  itself and \<open>Equals\<close> is \<open>==\<close> (inherited from \<open>JitKeyFuncsDefEquals\<close>).
\<close>

definition JitSmallPrimitiveKeyFuncs :: "(32 word) KeyFuncs" where
  "JitSmallPrimitiveKeyFuncs = \<lparr>GetHashCode = (\<lambda>val. val), Equals = (\<lambda>x y. x = y)\<rparr>"

text \<open>
  \<open>JitLargePrimitiveKeyFuncs<T>\<close> for a 64-bit \<open>T\<close>: upper and lower halves of the bit
  pattern, combined by exclusive or.
\<close>

definition JitLargePrimitiveKeyFuncs :: "(64 word) KeyFuncs" where
  "JitLargePrimitiveKeyFuncs =
     \<lparr>GetHashCode = (\<lambda>val. (ucast (drop_bit 32 val) :: 32 word) XOR ucast (val AND 0xFFFFFFFF)),
      Equals = (\<lambda>x y. x = y)\<rparr>"

subsection \<open>The table\<close>

type_synonym ('k, 'v) Node = "'k \<times> 'v"

abbreviation GetKey :: "('k, 'v) Node \<Rightarrow> 'k" where
  "GetKey \<equiv> fst"

abbreviation GetValue :: "('k, 'v) Node \<Rightarrow> 'v" where
  "GetValue \<equiv> snd"

record ('k, 'v) JitHashTable =
  m_table :: "('k, 'v) Node list list option"
  m_tableSizeInfo :: JitPrimeInfo
  m_tableCount :: "32 word"
  m_tableMax :: "32 word"

text \<open>The constructor: no bucket array, default size descriptor, no entries.\<close>

definition JitHashTable_new :: "('k, 'v) JitHashTable" where
  "JitHashTable_new =
     \<lparr>m_table = None, m_tableSizeInfo = JitPrimeInfo_default, m_tableCount = 0, m_tableMax = 0\<rparr>"

definition GetCount :: "('k, 'v) JitHashTable \<Rightarrow> 32 word" where
  "GetCount t = m_tableCount t"

text \<open>The read \<open>table[index]\<close> through a bucket pointer, and the write \<open>table[index] = chain\<close>.\<close>

definition read_bucket ::
  "('k, 'v) Node list list option \<Rightarrow> 32 word \<Rightarrow> error + ('k, 'v) Node list" where
  "read_bucket tab index =
     (case tab of
        None \<Rightarrow> Inl UndefinedBehaviour
      | Some bs \<Rightarrow> if unat index < length bs then Inr (bs ! unat index) else Inl UndefinedBehaviour)"

definition bucket_at :: "('k, 'v) JitHashTable \<Rightarrow> 32 word \<Rightarrow> error + ('k, 'v) Node list" where
  "bucket_at t index = read_bucket (m_table t) index"

text \<open>Every write to a bucket follows a read of the same bucket, so it has no error case.\<close>

definition bucket_set ::
  "('k, 'v) JitHashTable \<Rightarrow> 32 word \<Rightarrow> ('k, 'v) Node list \<Rightarrow> ('k, 'v) JitHashTable" where
  "bucket_set t index chain =
     (case m_table t of
        None \<Rightarrow> t
      | Some bs \<Rightarrow> t\<lparr>m_table := Some (bs[unat index := chain])\<rparr>)"

definition GetIndexForKey :: "'k KeyFuncs \<Rightarrow> ('k, 'v) JitHashTable \<Rightarrow> 'k \<Rightarrow> error + 32 word" where
  "GetIndexForKey kf t k =
     (let hash = GetHashCode kf k in magicNumberRem (m_tableSizeInfo t) hash)"

text \<open>
  The loop \<open>while ((pN != nullptr) && !KeyFuncs::Equals(k, pN->m_key)) pN = pN->m_next\<close>.
  A pointer into a chain is the rest of the chain from that node on, \<open>[]\<close> for \<open>nullptr\<close>.
\<close>

fun walk :: "'k KeyFuncs \<Rightarrow> 'k \<Rightarrow> ('k, 'v) Node list \<Rightarrow> ('k, 'v) Node list" where
  "walk kf k [] = []"
| "walk kf k (n # ns) = (if Equals kf k (GetKey n) then n # ns else walk kf k ns)"

text \<open>\<open>pN->m_val = v\<close> for the node \<open>pN\<close> that the loop stops at.\<close>

fun assign_val :: "'k KeyFuncs \<Rightarrow> 'k \<Rightarrow> 'v \<Rightarrow> ('k, 'v) Node list \<Rightarrow> ('k, 'v) Node list" where
  "assign_val kf k v [] = []"
| "assign_val kf k v (n # ns) =
     (if Equals kf k (GetKey n) then (GetKey n, v) # ns else n # assign_val kf k v ns)"

text \<open>
  \<open>Remove\<close> runs the same loop with \<open>ppN\<close> trailing one link behind; \<open>*ppN = pN->m_next\<close>
  then unlinks the first node whose key matches.
\<close>

fun unlink :: "'k KeyFuncs \<Rightarrow> 'k \<Rightarrow> ('k, 'v) Node list \<Rightarrow> ('k, 'v) Node list" where
  "unlink kf k [] = []"
| "unlink kf k (n # ns) = (if Equals kf k (GetKey n) then ns else n # unlink kf k ns)"

subsection \<open>Lookup\<close>

definition FindNode ::
  "'k KeyFuncs \<Rightarrow> ('k, 'v) JitHashTable \<Rightarrow> 'k \<Rightarrow> error + ('k, 'v) Node list" where
  "FindNode kf t k =
     (if prime (m_tableSizeInfo t) = 0 then Inr []
      else
        (case GetIndexForKey kf t k of
           Inl e \<Rightarrow> Inl e
         | Inr index \<Rightarrow>
             (case bucket_at t index of
                Inl e \<Rightarrow> Inl e
              | Inr pN \<Rightarrow>
                  if pN = [] then Inr []
                  else
                    (let pN' = walk kf k pN
                     in if pN' = [] \<or> Equals kf k (GetKey (hd pN')) then Inr pN'
                        else Inl AssertionFailed))))"

text \<open>
  \<open>Lookup\<close> is a \<open>const\<close> member: it returns no table. The argument \<open>pVal\<close> is \<open>None\<close> for
  \<open>nullptr\<close> and \<open>Some x\<close> for a pointer to a location that holds \<open>x\<close>; the second component
  of the result is that location after the call.
\<close>

definition Lookup ::
  "'k KeyFuncs \<Rightarrow> ('k, 'v) JitHashTable \<Rightarrow> 'k \<Rightarrow> 'v option \<Rightarrow> error + (bool \<times> 'v option)" where
  "Lookup kf t k pVal =
     (case FindNode kf t k of
        Inl e \<Rightarrow> Inl e
      | Inr pN \<Rightarrow>
          (case pN of
             n # _ \<Rightarrow> Inr (True, (case pVal of None \<Rightarrow> None | Some _ \<Rightarrow> Some (GetValue n)))
           | [] \<Rightarrow> Inr (False, pVal)))"

text \<open>\<open>LookupPointer\<close>: the returned \<open>Value*\<close> is given by the value it points to.\<close>

definition LookupPointer ::
  "'k KeyFuncs \<Rightarrow> ('k, 'v) JitHashTable \<Rightarrow> 'k \<Rightarrow> error + 'v option" where
  "LookupPointer kf t k =
     (case FindNode kf t k of
        Inl e \<Rightarrow> Inl e
      | Inr pN \<Rightarrow> (case pN of n # _ \<Rightarrow> Inr (Some (GetValue n)) | [] \<Rightarrow> Inr None))"

subsection \<open>Growth\<close>

text \<open>
  \<open>NextPrime\<close> scans the prime table from its first entry. Falling out of the loop
  calls \<open>Behavior::NoMemory()\<close>.
\<close>

fun NextPrime :: "JitPrimeInfo list \<Rightarrow> 32 word \<Rightarrow> error + JitPrimeInfo" where
  "NextPrime [] number = Inl NoMemory"
| "NextPrime (d # ds) number = (if number \<le> prime d then Inr d else NextPrime ds number)"

text \<open>
  The inner loop of \<open>Reallocate\<close>: every node of one old chain is pushed on the head of
  its chain in the new array.
\<close>

fun move_chain ::
  "'k KeyFuncs \<Rightarrow> JitPrimeInfo \<Rightarrow> ('k, 'v) Node list \<Rightarrow> ('k, 'v) Node list list
     \<Rightarrow> error + ('k, 'v) Node list list" where
  "move_chain kf newPrime [] newTable = Inr newTable"
| "move_chain kf newPrime (n # pNext) newTable =
     (case magicNumberRem newPrime (GetHashCode kf (GetKey n)) of
        Inl e \<Rightarrow> Inl e
      | Inr newIndex \<Rightarrow>
          if unat newIndex < length newTable
          then move_chain kf newPrime pNext
                 (newTable[unat newIndex := n # newTable ! unat newIndex])
          else Inl UndefinedBehaviour)"

text \<open>The outer loop \<open>for (unsigned i = 0; i < m_tableSizeInfo.prime; i++)\<close>, from \<open>i\<close> on.\<close>

function move_buckets ::
  "'k KeyFuncs \<Rightarrow> JitPrimeInfo \<Rightarrow> ('k, 'v) JitHashTable \<Rightarrow> 32 word
     \<Rightarrow> ('k, 'v) Node list list \<Rightarrow> error + ('k, 'v) Node list list" where
  "move_buckets kf newPrime t i newTable =
     (if i < prime (m_tableSizeInfo t)
      then
        (case bucket_at t i of
           Inl e \<Rightarrow> Inl e
         | Inr pN \<Rightarrow>
             (case move_chain kf newPrime pN newTable of
                Inl e \<Rightarrow> Inl e
              | Inr newTable' \<Rightarrow> move_buckets kf newPrime t (i + 1) newTable'))
      else Inr newTable)"
  by pat_completeness auto
termination
  apply (relation "measure (\<lambda>(kf, newPrime, t, i, newTable). unat (prime (m_tableSizeInfo t)) - unat i)")
   apply simp
  subgoal for kf newPrime t i
    using unsigned_less [of "prime (m_tableSizeInfo t)", where 'a = nat]
    by (simp add: word_less_nat_alt unat_word_ariths)
  done

definition Reallocate ::
  "JitPrimeInfo list \<Rightarrow> 'k KeyFuncs \<Rightarrow> ('k, 'v) JitHashTable \<Rightarrow> 32 word
     \<Rightarrow> error + ('k, 'v) JitHashTable" where
  "Reallocate tbl kf t newTableSize =
     (if \<not> (GetCount t * s_density_factor_denominator div s_density_factor_numerator
              \<le> newTableSize)
      then Inl AssertionFailed
      else
        (case NextPrime tbl newTableSize of
           Inl e \<Rightarrow> Inl e
         | Inr newPrime \<Rightarrow>
             (let newTableSize' = prime newPrime;
                  newTable = replicate (unat newTableSize') []
              in case move_buckets kf newPrime t 0 newTable of
                   Inl e \<Rightarrow> Inl e
                 | Inr newTable' \<Rightarrow>
                     Inr (t\<lparr>m_table := Some newTable',
                            m_tableSizeInfo := newPrime,
                            m_tableMax := newTableSize' * s_density_factor_numerator
                                            div s_density_factor_denominator\<rparr>))))"

text \<open>\<open>Grow\<close>: products and quotients are taken left to right in 32 bits.\<close>

definition Grow_newSize :: "32 word \<Rightarrow> 32 word" where
  "Grow_newSize tableCount =
     (let newSize = tableCount * s_growth_factor_numerator div s_growth_factor_denominator
                      * s_density_factor_denominator div s_density_factor_numerator
      in if newSize < s_minimum_allocation then s_minimum_allocation else newSize)"

definition Grow ::
  "JitPrimeInfo list \<Rightarrow> 'k KeyFuncs \<Rightarrow> ('k, 'v) JitHashTable \<Rightarrow> error + ('k, 'v) JitHashTable" where
  "Grow tbl kf t =
     (let newSize = Grow_newSize (m_tableCount t)
      in if newSize < m_tableCount t then Inl NoMemory else Reallocate tbl kf t newSize)"

definition CheckGrowth ::
  "JitPrimeInfo list \<Rightarrow> 'k KeyFuncs \<Rightarrow> ('k, 'v) JitHashTable \<Rightarrow> error + ('k, 'v) JitHashTable" where
  "CheckGrowth tbl kf t = (if m_tableCount t = m_tableMax t then Grow tbl kf t else Inr t)"

subsection \<open>Insertion and removal\<close>

text \<open>\<open>enum SetKind { None, Overwrite }\<close>; \<open>None\<close> is taken by the option type.\<close>

datatype SetKind = NoneKind | Overwrite

text \<open>
  The three inserting members share their shape: growth check, the assertion that a
  bucket array exists, the bucket index, the search of the chain, and then either the
  existing node or a new node linked in at the head of the chain.
  \<open>LookupPointerOrAdd\<close> and \<open>Emplace\<close> return a \<open>Value*\<close>, given here by the value it
  points to. \<open>Emplace\<close> builds the value from constructor arguments; \<open>v\<close> is the value so
  built.
\<close>

definition LookupPointerOrAdd ::
  "JitPrimeInfo list \<Rightarrow> 'k KeyFuncs \<Rightarrow> ('k, 'v) JitHashTable \<Rightarrow> 'k \<Rightarrow> 'v
     \<Rightarrow> error + ('v \<times> ('k, 'v) JitHashTable)" where
  "LookupPointerOrAdd tbl kf t k defaultValue =
     (case CheckGrowth tbl kf t of
        Inl e \<Rightarrow> Inl e
      | Inr t1 \<Rightarrow>
          if prime (m_tableSizeInfo t1) = 0 then Inl AssertionFailed
          else
            (case GetIndexForKey kf t1 k of
               Inl e \<Rightarrow> Inl e
             | Inr index \<Rightarrow>
                 (case bucket_at t1 index of
                    Inl e \<Rightarrow> Inl e
                  | Inr chain \<Rightarrow>
                      (case walk kf k chain of
                         n # _ \<Rightarrow> Inr (GetValue n, t1)
                       | [] \<Rightarrow>
                           Inr (defaultValue,
                                (bucket_set t1 index ((k, defaultValue) # chain))
                                  \<lparr>m_tableCount := m_tableCount t1 + 1\<rparr>)))))"

definition Set ::
  "JitPrimeInfo list \<Rightarrow> 'k KeyFuncs \<Rightarrow> ('k, 'v) JitHashTable \<Rightarrow> 'k \<Rightarrow> 'v \<Rightarrow> SetKind
     \<Rightarrow> error + (bool \<times> ('k, 'v) JitHashTable)" where
  "Set tbl kf t k v kind =
     (case CheckGrowth tbl kf t of
        Inl e \<Rightarrow> Inl e
      | Inr t1 \<Rightarrow>
          if prime (m_tableSizeInfo t1) = 0 then Inl AssertionFailed
          else
            (case GetIndexForKey kf t1 k of
               Inl e \<Rightarrow> Inl e
             | Inr index \<Rightarrow>
                 (case bucket_at t1 index of
                    Inl e \<Rightarrow> Inl e
                  | Inr chain \<Rightarrow>
                      if walk kf k chain \<noteq> []
                      then
                        (if kind \<noteq> Overwrite then Inl AssertionFailed
                         else Inr (True, bucket_set t1 index (assign_val kf k v chain)))
                      else
                        Inr (False,
                             (bucket_set t1 index ((k, v) # chain))
                               \<lparr>m_tableCount := m_tableCount t1 + 1\<rparr>))))"

definition Emplace ::
  "JitPrimeInfo list \<Rightarrow> 'k KeyFuncs \<Rightarrow> ('k, 'v) JitHashTable \<Rightarrow> 'k \<Rightarrow> 'v
     \<Rightarrow> error + ('v \<times> ('k, 'v) JitHashTable)" where
  "Emplace tbl kf t k v =
     (case CheckGrowth tbl kf t of
        Inl e \<Rightarrow> Inl e
      | Inr t1 \<Rightarrow>
          if prime (m_tableSizeInfo t1) = 0 then Inl AssertionFailed
          else
            (case GetIndexForKey kf t1 k of
               Inl e \<Rightarrow> Inl e
             | Inr index \<Rightarrow>
                 (case bucket_at t1 index of
                    Inl e \<Rightarrow> Inl e
                  | Inr chain \<Rightarrow>
                      (case walk kf k chain of
                         [] \<Rightarrow>
                           Inr (v,
                                (bucket_set t1 index ((k, v) # chain))
                                  \<lparr>m_tableCount := m_tableCount t1 + 1\<rparr>)
                       | n # _ \<Rightarrow> Inr (GetValue n, t1)))))"

definition Remove ::
  "'k KeyFuncs \<Rightarrow> ('k, 'v) JitHashTable \<Rightarrow> 'k \<Rightarrow> error + (bool \<times> ('k, 'v) JitHashTable)" where
  "Remove kf t k =
     (case GetIndexForKey kf t k of
        Inl e \<Rightarrow> Inl e
      | Inr index \<Rightarrow>
          (case bucket_at t index of
             Inl e \<Rightarrow> Inl e
           | Inr chain \<Rightarrow>
               if walk kf k chain \<noteq> []
               then Inr (True,
                         (bucket_set t index (unlink kf k chain))
                           \<lparr>m_tableCount := m_tableCount t - 1\<rparr>)
               else Inr (False, t)))"

text \<open>
  \<open>RemoveAll\<close>: the loop reads every bucket and frees its nodes; then the bucket array is
  released and the members are reset.
\<close>

function free_buckets :: "('k, 'v) JitHashTable \<Rightarrow> 32 word \<Rightarrow> error + unit" where
  "free_buckets t i =
     (if i < prime (m_tableSizeInfo t)
      then (case bucket_at t i of Inl e \<Rightarrow> Inl e | Inr pN \<Rightarrow> free_buckets t (i + 1))
      else Inr ())"
  by pat_completeness auto
termination
  apply (relation "measure (\<lambda>(t, i). unat (prime (m_tableSizeInfo t)) - unat i)")
   apply simp
  subgoal for t i
    using unsigned_less [of "prime (m_tableSizeInfo t)", where 'a = nat]
    by (simp add: word_less_nat_alt unat_word_ariths)
  done

definition RemoveAll :: "('k, 'v) JitHashTable \<Rightarrow> error + ('k, 'v) JitHashTable" where
  "RemoveAll t =
     (case free_buckets t 0 of
        Inl e \<Rightarrow> Inl e
      | Inr _ \<Rightarrow>
          Inr (t\<lparr>m_table := None, m_tableSizeInfo := JitPrimeInfo_default,
                 m_tableCount := 0, m_tableMax := 0\<rparr>))"

subsection \<open>Iteration\<close>

text \<open>
  \<open>NodeIterator\<close> has the members \<open>m_table\<close>, \<open>m_node\<close>, \<open>m_tableSize\<close> and \<open>m_index\<close>; they
  carry the prefix \<open>iter_\<close> here because the table has a member \<open>m_table\<close> too. The node
  pointer \<open>m_node\<close> is the rest of the current chain from the current node on.
\<close>

record ('k, 'v) NodeIterator =
  iter_table :: "('k, 'v) Node list list option"
  iter_node :: "('k, 'v) Node list"
  iter_tableSize :: "32 word"
  iter_index :: "32 word"

text \<open>The loop \<open>while ((m_index < m_tableSize) && (m_table[m_index] == nullptr)) m_index++\<close>.\<close>

function skip_empty ::
  "('k, 'v) Node list list option \<Rightarrow> 32 word \<Rightarrow> 32 word \<Rightarrow> error + 32 word" where
  "skip_empty tab tableSize index =
     (if index < tableSize
      then
        (case read_bucket tab index of
           Inl e \<Rightarrow> Inl e
         | Inr chain \<Rightarrow> if chain = [] then skip_empty tab tableSize (index + 1) else Inr index)
      else Inr index)"
  by pat_completeness auto
termination
  apply (relation "measure (\<lambda>(tab, tableSize, index). unat tableSize - unat index)")
   apply simp
  subgoal for tab tableSize index
    using unsigned_less [of tableSize, where 'a = nat]
    by (simp add: word_less_nat_alt unat_word_ariths)
  done

text \<open>
  The code that the constructor and \<open>Next\<close> share after the skipping loop: fetch the
  head of the bucket reached, or null at the end of the array.
\<close>

definition settle :: "('k, 'v) NodeIterator \<Rightarrow> error + ('k, 'v) NodeIterator" where
  "settle it =
     (case skip_empty (iter_table it) (iter_tableSize it) (iter_index it) of
        Inl e \<Rightarrow> Inl e
      | Inr index \<Rightarrow>
          if index < iter_tableSize it
          then
            (case read_bucket (iter_table it) index of
               Inl e \<Rightarrow> Inl e
             | Inr chain \<Rightarrow>
                 if chain = [] then Inl AssertionFailed
                 else Inr (it\<lparr>iter_index := index, iter_node := chain\<rparr>))
          else Inr (it\<lparr>iter_index := index, iter_node := []\<rparr>))"

definition NodeIterator ::
  "('k, 'v) JitHashTable \<Rightarrow> bool \<Rightarrow> error + ('k, 'v) NodeIterator" where
  "NodeIterator hash begin =
     (let it = \<lparr>iter_table = m_table hash, iter_node = [],
                iter_tableSize = prime (m_tableSizeInfo hash),
                iter_index = (if begin then 0 else prime (m_tableSizeInfo hash))\<rparr>
      in if begin \<and> 0 < m_tableCount hash
         then (if m_table hash = None then Inl AssertionFailed else settle it)
         else Inr it)"

definition Next :: "('k, 'v) NodeIterator \<Rightarrow> error + ('k, 'v) NodeIterator" where
  "Next it =
     (case iter_node it of
        n # rest \<Rightarrow>
          if rest \<noteq> [] then Inr (it\<lparr>iter_node := rest\<rparr>)
          else settle (it\<lparr>iter_node := [], iter_index := iter_index it + 1\<rparr>)
      | [] \<Rightarrow> settle it)"

text \<open>
  A range-based \<open>for\<close> over one of the three adaptors: \<open>for (it = begin(); it != end(); ++it)\<close>
  with the element \<open>*it\<close> handed to the body. \<open>operator!=\<close> compares the node pointers, and
  the node pointer of the end iterator is null. \<open>for_range\<close> returns the nodes \<open>it\<close> points to
  at the start of each round, in order; the adaptors differ in what \<open>operator*\<close> projects.
\<close>

function for_range :: "('k, 'v) NodeIterator \<Rightarrow> error + ('k, 'v) Node list" where
  "for_range it =
     (if iter_node it \<noteq> []
      then
        (case Next it of
           Inl e \<Rightarrow> Inl e
         | Inr it' \<Rightarrow>
             (case for_range it' of
                Inl e \<Rightarrow> Inl e
              | Inr ns \<Rightarrow> Inr (hd (iter_node it) # ns)))
      else Inr [])"
  by pat_completeness auto

text \<open>
  Three measures for the termination of \<open>for_range\<close>: whether the iterator holds a node
  although its index is past the array, the buckets left, the nodes left in the chain.
\<close>

definition iter_past :: "('k, 'v) NodeIterator \<Rightarrow> nat" where
  "iter_past it = (if iter_node it \<noteq> [] \<and> iter_tableSize it \<le> iter_index it then 1 else 0)"

definition iter_left :: "('k, 'v) NodeIterator \<Rightarrow> nat" where
  "iter_left it = unat (iter_tableSize it) - unat (iter_index it)"

definition KeyValueIteration :: "('k, 'v) JitHashTable \<Rightarrow> error + ('k, 'v) Node list" where
  "KeyValueIteration hash =
     (case NodeIterator hash True of Inl e \<Rightarrow> Inl e | Inr it \<Rightarrow> for_range it)"

definition KeyIteration :: "('k, 'v) JitHashTable \<Rightarrow> error + 'k list" where
  "KeyIteration hash =
     (case KeyValueIteration hash of Inl e \<Rightarrow> Inl e | Inr ns \<Rightarrow> Inr (map GetKey ns))"

definition ValueIteration :: "('k, 'v) JitHashTable \<Rightarrow> error + 'v list" where
  "ValueIteration hash =
     (case KeyValueIteration hash of Inl e \<Rightarrow> Inl e | Inr ns \<Rightarrow> Inr (map GetValue ns))"

subsection \<open>Sequences of calls\<close>

text \<open>The members that change a table, as calls; a sequence of calls stops at the first error.\<close>

datatype ('k, 'v) call =
    CallSet 'k 'v SetKind
  | CallLookupPointerOrAdd 'k 'v
  | CallEmplace 'k 'v
  | CallRemove 'k
  | CallRemoveAll
  | CallReallocate "32 word"

fun perform ::
  "JitPrimeInfo list \<Rightarrow> 'k KeyFuncs \<Rightarrow> ('k, 'v) JitHashTable \<Rightarrow> ('k, 'v) call
     \<Rightarrow> error + ('k, 'v) JitHashTable" where
  "perform tbl kf t (CallSet k v kind) =
     (case Set tbl kf t k v kind of Inl e \<Rightarrow> Inl e | Inr (_, t') \<Rightarrow> Inr t')"
| "perform tbl kf t (CallLookupPointerOrAdd k v) =
     (case LookupPointerOrAdd tbl kf t k v of Inl e \<Rightarrow> Inl e | Inr (_, t') \<Rightarrow> Inr t')"
| "perform tbl kf t (CallEmplace k v) =
     (case Emplace tbl kf t k v of Inl e \<Rightarrow> Inl e | Inr (_, t') \<Rightarrow> Inr t')"
| "perform tbl kf t (CallRemove k) =
     (case Remove kf t k of Inl e \<Rightarrow> Inl e | Inr (_, t') \<Rightarrow> Inr t')"
| "perform tbl kf t CallRemoveAll = RemoveAll t"
| "perform tbl kf t (CallReallocate n) = Reallocate tbl kf t n"

fun run ::
  "JitPrimeInfo list \<Rightarrow> 'k KeyFuncs \<Rightarrow> ('k, 'v) JitHashTable \<Rightarrow> ('k, 'v) call list
     \<Rightarrow> error + ('k, 'v) JitHashTable" where
  "run tbl kf t [] = Inr t"
| "run tbl kf t (c # cs) =
     (case perform tbl kf t c of Inl e \<Rightarrow> Inl e | Inr t' \<Rightarrow> run tbl kf t' cs)"

subsection \<open>The mapping a sequence of calls describes\<close>

text \<open>
  The specification's reading of the calls, as a finite map: \<open>Set\<close> binds the key to the
  value, \<open>LookupPointerOrAdd\<close> and \<open>Emplace\<close> bind it only when it is unbound, \<open>Remove\<close>
  unbinds it, \<open>RemoveAll\<close> unbinds every key and \<open>Reallocate\<close> changes nothing.
\<close>

fun spec_call :: "('k \<rightharpoonup> 'v) \<Rightarrow> ('k, 'v) call \<Rightarrow> ('k \<rightharpoonup> 'v)" where
  "spec_call m (CallSet k v kind) = m(k \<mapsto> v)"
| "spec_call m (CallLookupPointerOrAdd k v) = (if m k = None then m(k \<mapsto> v) else m)"
| "spec_call m (CallEmplace k v) = (if m k = None then m(k \<mapsto> v) else m)"
| "spec_call m (CallRemove k) = m(k := None)"
| "spec_call m CallRemoveAll = Map.empty"
| "spec_call m (CallReallocate n) = m"

definition spec_map :: "('k, 'v) call list \<Rightarrow> ('k \<rightharpoonup> 'v)" where
  "spec_map cs = foldl spec_call Map.empty cs"

subsection \<open>Well-formed tables\<close>

text \<open>
  \<open>def_equals\<close>: the key functions inherit \<open>Equals\<close> from \<open>JitKeyFuncsDefEquals\<close>, as the
  three key-function classes of the header do.
\<close>

definition def_equals :: "'k KeyFuncs \<Rightarrow> bool" where
  "def_equals kf \<longleftrightarrow> (\<forall>x y. Equals kf x y = (x = y))"

text \<open>
  \<open>exact d\<close>: the descriptor's magic remainder is the remainder, for every 32-bit input
  (in particular the assertion in \<open>magicNumberRem\<close> never fails). \<open>exact_table\<close> asks
  this of every entry of a prime table.
\<close>

definition exact :: "JitPrimeInfo \<Rightarrow> bool" where
  "exact d \<longleftrightarrow> prime d \<noteq> 0 \<and> (\<forall>x. magicNumberRem d x = Inr (x mod prime d))"

definition exact_table :: "JitPrimeInfo list \<Rightarrow> bool" where
  "exact_table tbl \<longleftrightarrow> (\<forall>d \<in> set tbl. exact d)"

text \<open>
  \<open>magic_ok d\<close> is a condition on the three numbers that can be computed and that
  implies \<open>exact d\<close>: the product of magic number and prime exceeds \<open>2 ^ (32 + shift)\<close> by
  at most \<open>2 ^ shift\<close>.
\<close>

definition magic_ok :: "JitPrimeInfo \<Rightarrow> bool" where
  "magic_ok d \<longleftrightarrow>
     unat (shift d) < 32 \<and>
     2 ^ (32 + unat (shift d)) \<le> unat (magic d) * unat (prime d) \<and>
     unat (magic d) * unat (prime d) \<le> 2 ^ (32 + unat (shift d)) + 2 ^ unat (shift d)"

text \<open>The nodes of a table, bucket by bucket, each chain head first.\<close>

definition entries :: "('k, 'v) JitHashTable \<Rightarrow> ('k, 'v) Node list" where
  "entries t = (case m_table t of None \<Rightarrow> [] | Some bs \<Rightarrow> concat bs)"

text \<open>The length of the bucket array, 0 when there is none.\<close>

definition table_length :: "('k, 'v) JitHashTable \<Rightarrow> nat" where
  "table_length t = (case m_table t of None \<Rightarrow> 0 | Some bs \<Rightarrow> length bs)"

text \<open>\<open>placed\<close>: every node hangs off the bucket that the hash code of its key selects.\<close>

definition placed ::
  "'k KeyFuncs \<Rightarrow> JitPrimeInfo \<Rightarrow> ('k, 'v) Node list list \<Rightarrow> bool" where
  "placed kf d bs \<longleftrightarrow>
     (\<forall>i < length bs. \<forall>n \<in> set (bs ! i). unat (GetHashCode kf (GetKey n) mod prime d) = i)"

text \<open>
  \<open>table_inv\<close>: a table without bucket array has the members the constructor sets; a
  table with bucket array has an exact descriptor, as many buckets as the descriptor's
  prime, every node in its place, no key twice, and a count that is the number of
  nodes (in 32 bits).
\<close>

definition table_inv :: "'k KeyFuncs \<Rightarrow> ('k, 'v) JitHashTable \<Rightarrow> bool" where
  "table_inv kf t \<longleftrightarrow>
     (case m_table t of
        None \<Rightarrow>
          prime (m_tableSizeInfo t) = 0 \<and> m_tableCount t = 0 \<and> m_tableMax t = 0
      | Some bs \<Rightarrow>
          exact (m_tableSizeInfo t) \<and>
          length bs = unat (prime (m_tableSizeInfo t)) \<and>
          placed kf (m_tableSizeInfo t) bs \<and>
          distinct (map GetKey (concat bs)) \<and>
          m_tableCount t = of_nat (length (concat bs)))"

text \<open>
  \<open>Reallocate\<close> pushes the nodes one by one onto the chains of the new array; \<open>rehash\<close> is
  the array this produces from the nodes in their old order.
\<close>

definition push ::
  "'k KeyFuncs \<Rightarrow> JitPrimeInfo \<Rightarrow> ('k, 'v) Node \<Rightarrow> ('k, 'v) Node list list
     \<Rightarrow> ('k, 'v) Node list list" where
  "push kf d n bs =
     (let i = unat (GetHashCode kf (GetKey n) mod prime d) in bs[i := n # bs ! i])"

definition rehash ::
  "'k KeyFuncs \<Rightarrow> JitPrimeInfo \<Rightarrow> ('k, 'v) Node list \<Rightarrow> ('k, 'v) Node list list" where
  "rehash kf d ns = fold (push kf d) ns (replicate (unat (prime d)) [])"

text \<open>The table after its nodes have been moved to a bucket array for the descriptor \<open>d\<close>.\<close>

definition resized ::
  "'k KeyFuncs \<Rightarrow> JitPrimeInfo \<Rightarrow> ('k, 'v) JitHashTable \<Rightarrow> ('k, 'v) JitHashTable" where
  "resized kf d t =
     t\<lparr>m_table := Some (rehash kf d (entries t)),
       m_tableSizeInfo := d,
       m_tableMax := prime d * s_density_factor_numerator div s_density_factor_denominator\<rparr>"

text \<open>
  The three changes of a chain, for the key \<open>k\<close> in a table with bucket array:
  a new node linked in at the head of the chain of \<open>k\<close>; the value of the node of \<open>k\<close>
  replaced in place; the node of \<open>k\<close> unlinked.
\<close>

definition chain_of :: "'k KeyFuncs \<Rightarrow> ('k, 'v) JitHashTable \<Rightarrow> 'k \<Rightarrow> ('k, 'v) Node list" where
  "chain_of kf t k =
     (case m_table t of
        None \<Rightarrow> []
      | Some bs \<Rightarrow> bs ! unat (GetHashCode kf k mod prime (m_tableSizeInfo t)))"

definition with_new_node ::
  "'k KeyFuncs \<Rightarrow> ('k, 'v) JitHashTable \<Rightarrow> 'k \<Rightarrow> 'v \<Rightarrow> ('k, 'v) JitHashTable" where
  "with_new_node kf t k v =
     (bucket_set t (GetHashCode kf k mod prime (m_tableSizeInfo t)) ((k, v) # chain_of kf t k))
       \<lparr>m_tableCount := m_tableCount t + 1\<rparr>"

definition with_value ::
  "'k KeyFuncs \<Rightarrow> ('k, 'v) JitHashTable \<Rightarrow> 'k \<Rightarrow> 'v \<Rightarrow> ('k, 'v) JitHashTable" where
  "with_value kf t k v =
     bucket_set t (GetHashCode kf k mod prime (m_tableSizeInfo t))
       (assign_val kf k v (chain_of kf t k))"

definition without_node ::
  "'k KeyFuncs \<Rightarrow> ('k, 'v) JitHashTable \<Rightarrow> 'k \<Rightarrow> ('k, 'v) JitHashTable" where
  "without_node kf t k =
     (bucket_set t (GetHashCode kf k mod prime (m_tableSizeInfo t)) (unlink kf k (chain_of kf t k)))
       \<lparr>m_tableCount := m_tableCount t - 1\<rparr>"



subsection \<open>Inputs for running the functions\<close>

text \<open>
  A prime table to run the functions on: three primes in ascending order, each with a
  magic number and shift that satisfy \<open>magic_ok\<close>. It stands in for \<open>jitPrimeInfo\<close>, whose
  entries the header does not give.
\<close>

definition sample_primes :: "JitPrimeInfo list" where
  "sample_primes =
     [\<lparr>prime = 11, magic = 0xBA2E8BA3, shift = 3\<rparr>,
      \<lparr>prime = 23, magic = 0xB21642C9, shift = 4\<rparr>,
      \<lparr>prime = 59, magic = 0x22B63CBF, shift = 3\<rparr>]"

text \<open>
  The count as the specification words it, "distinct keys ever inserted minus keys
  removed": the number of different keys among the inserting calls, minus the number
  of \<open>Remove\<close> calls that found their key.
\<close>

fun keys_inserted :: "('k, 'v) call list \<Rightarrow> 'k list" where
  "keys_inserted [] = []"
| "keys_inserted (CallSet k v kind # cs) = k # keys_inserted cs"
| "keys_inserted (CallLookupPointerOrAdd k v # cs) = k # keys_inserted cs"
| "keys_inserted (CallEmplace k v # cs) = k # keys_inserted cs"
| "keys_inserted (c # cs) = keys_inserted cs"

fun keys_removed :: "('k \<rightharpoonup> 'v) \<Rightarrow> ('k, 'v) call list \<Rightarrow> nat" where
  "keys_removed m [] = 0"
| "keys_removed m (CallRemove k # cs) =
     (if m k = None then 0 else 1) + keys_removed (spec_call m (CallRemove k)) cs"
| "keys_removed m (c # cs) = keys_removed (spec_call m c) cs"

definition claimed_count :: "('k, 'v) call list \<Rightarrow> nat" where
  "claimed_count cs = length (remdups (keys_inserted cs)) - keys_removed Map.empty cs"



section \<open>Auxiliary facts\<close>

subsection \<open>Magic numbers\<close>

lemma magic_quotient:
  fixes p M s x :: nat
  assumes lo: "2 ^ (32 + s) \<le> M * p" and hi: "M * p \<le> 2 ^ (32 + s) + 2 ^ s"
    and x: "x < 2 ^ 32"
  shows "(x * M) div 2 ^ (32 + s) = x div p"
proof -
  have p: "0 < p" using lo by (cases p) auto
  define q where "q = x div p"
  have xq: "q * p \<le> x" unfolding q_def by simp
  have xq': "x < (q + 1) * p" unfolding q_def using p
    by (metis Suc_eq_plus1 dividend_less_div_times mult.commute mult_Suc)
  have "q * 2 ^ (32 + s) \<le> q * (M * p)" using lo by simp
  also have "\<dots> = (q * p) * M" by (simp add: mult_ac)
  also have "\<dots> \<le> x * M" using xq by simp
  finally have low: "2 ^ (32 + s) * q \<le> x * M" by (simp add: mult_ac)
  have "p * (x * M) = x * (M * p)" by (simp add: mult_ac)
  also have "\<dots> \<le> x * (2 ^ (32 + s) + 2 ^ s)" using hi by simp
  also have "\<dots> = x * 2 ^ (32 + s) + x * 2 ^ s" by (simp add: distrib_left)
  also have "\<dots> < x * 2 ^ (32 + s) + 2 ^ 32 * 2 ^ s" using x by simp
  also have "\<dots> = (x + 1) * 2 ^ (32 + s)" by (simp add: power_add)
  also have "\<dots> \<le> ((q + 1) * p) * 2 ^ (32 + s)"
  proof -
    from xq' have "x + 1 \<le> (q + 1) * p" by simp
    then show ?thesis by (rule mult_le_mono1)
  qed
  finally have "p * (x * M) < (q + 1) * p * 2 ^ (32 + s)" .
  also have "(q + 1) * p * 2 ^ (32 + s) = p * ((q + 1) * 2 ^ (32 + s))"
    by (simp only: mult_ac)
  finally have "x * M < (q + 1) * 2 ^ (32 + s)"
    unfolding mult_less_cancel1 by blast
  then have up: "x * M < 2 ^ (32 + s) * Suc q" by (simp add: mult_ac)
  from low up have "(x * M) div 2 ^ (32 + s) = q" by (rule div_nat_eqI)
  then show ?thesis by (simp add: q_def)
qed

lemma magicNumberDivide_ok:
  assumes "magic_ok d"
  shows "magicNumberDivide d x = Inr (x div prime d)"
proof -
  let ?s = "unat (shift d)"
  from assms have s: "?s < 32"
    and lo: "2 ^ (32 + ?s) \<le> unat (magic d) * unat (prime d)"
    and hi: "unat (magic d) * unat (prime d) \<le> 2 ^ (32 + ?s) + 2 ^ ?s"
    by (simp_all add: magic_ok_def)
  have cnt: "unat (32 + shift d) = 32 + ?s"
    using s by (simp add: unat_word_ariths)
  have xb: "unat x < 2 ^ 32" using unsigned_less [of x, where 'a = nat] by simp
  have mb: "unat (magic d) < 2 ^ 32" using unsigned_less [of "magic d", where 'a = nat] by simp
  have "unat x * unat (magic d) < 2 ^ 32 * 2 ^ 32"
    using xb mb by (intro mult_strict_mono) auto
  then have pb: "unat x * unat (magic d) < 2 ^ 64" by simp
  have prod: "unat ((ucast x :: 64 word) * ucast (magic d)) = unat x * unat (magic d)"
    using pb xb mb by (simp add: unat_word_ariths unsigned_ucast_eq take_bit_eq_mod)
  have q: "(unat x * unat (magic d)) div 2 ^ (32 + ?s) = unat x div unat (prime d)"
    using magic_quotient [OF lo hi xb] .
  have qb: "unat x div unat (prime d) < 2 ^ 32"
    using xb by (meson div_le_dividend le_less_trans)
  let ?W = "(ucast x :: 64 word) * ucast (magic d)"
  have "unat (drop_bit (32 + ?s) ?W) = drop_bit (32 + ?s) (unat ?W)"
    by (rule unat_drop_bit_eq)
  also have "\<dots> = unat ?W div 2 ^ (32 + ?s)"
    by (rule drop_bit_eq_div)
  also have "\<dots> = unat x div unat (prime d)"
    by (simp only: prod q)
  finally have db: "unat (drop_bit (32 + ?s) ?W) = unat x div unat (prime d)" .
  have "unat (ucast (drop_bit (32 + ?s) ?W) :: 32 word) = unat x div unat (prime d) mod 2 ^ 32"
    by (simp only: unsigned_ucast_eq take_bit_eq_mod db) simp
  then have "unat (ucast (drop_bit (32 + ?s) ((ucast x :: 64 word) * ucast (magic d))) :: 32 word)
          = unat x div unat (prime d)"
    using qb by simp
  then have "(ucast (drop_bit (32 + ?s) ((ucast x :: 64 word) * ucast (magic d))) :: 32 word)
          = x div prime d"
    by (simp add: word_unat_eq_iff unat_div)
  then show ?thesis
    using s by (simp add: magicNumberDivide_def Let_def cnt)
qed

lemma magic_ok_prime: "magic_ok d \<Longrightarrow> prime d \<noteq> 0"
  by (auto simp: magic_ok_def)

lemma magic_ok_exact: "magic_ok d \<Longrightarrow> exact d"
proof -
  assume ok: "magic_ok d"
  have "x - x div prime d * prime d = x mod prime d" for x
    using div_mult_mod_eq [of x "prime d"] by (simp add: algebra_simps)
  then show ?thesis
    using ok by (simp add: exact_def magicNumberRem_def magicNumberDivide_ok magic_ok_prime)
qed

subsection \<open>Chains\<close>

lemma walk_Nil_iff: "def_equals kf \<Longrightarrow> walk kf k c = [] \<longleftrightarrow> k \<notin> fst ` set c"
  by (induction c) (auto simp: def_equals_def)

lemma walk_Cons_key: "def_equals kf \<Longrightarrow> walk kf k c = n # r \<Longrightarrow> fst n = k"
  by (induction c) (auto simp: def_equals_def split: if_splits)

lemma walk_Cons_map_of: "def_equals kf \<Longrightarrow> walk kf k c = n # r \<Longrightarrow> map_of c k = Some (snd n)"
  by (induction c) (auto simp: def_equals_def split: if_splits)

lemma walk_Nil_map_of: "def_equals kf \<Longrightarrow> walk kf k c = [] \<Longrightarrow> map_of c k = None"
  by (induction c) (auto simp: def_equals_def split: if_splits)

lemma walk_hd_Equals: "walk kf k c \<noteq> [] \<Longrightarrow> Equals kf k (fst (hd (walk kf k c)))"
  by (induction c) auto

lemma keys_assign_val: "map fst (assign_val kf k v c) = map fst c"
  by (induction c) auto

lemma length_assign_val: "length (assign_val kf k v c) = length c"
  using keys_assign_val [of kf k v c] by (metis length_map)

lemma map_of_assign_val_if:
  "def_equals kf \<Longrightarrow>
     map_of (assign_val kf k v c) = (if k \<in> fst ` set c then (map_of c)(k \<mapsto> v) else map_of c)"
proof (induction c)
  case Nil
  then show ?case by simp
next
  case (Cons n c)
  show ?case
  proof (cases "k = fst n")
    case True
    with Cons.prems show ?thesis by (auto simp: def_equals_def fun_eq_iff)
  next
    case False
    with Cons show ?thesis by (auto simp: def_equals_def fun_eq_iff)
  qed
qed

lemma map_of_assign_val:
  "def_equals kf \<Longrightarrow> k \<in> fst ` set c \<Longrightarrow> map_of (assign_val kf k v c) = (map_of c)(k \<mapsto> v)"
  by (simp add: map_of_assign_val_if)

lemma set_unlink: "set (unlink kf k c) \<subseteq> set c"
  by (induction c) auto

lemma distinct_unlink: "distinct (map fst c) \<Longrightarrow> distinct (map fst (unlink kf k c))"
  using set_unlink [of kf k] by (induction c) (auto 4 3)

lemma map_of_unlink:
  "def_equals kf \<Longrightarrow> distinct (map fst c) \<Longrightarrow> map_of (unlink kf k c) = (map_of c)(k := None)"
proof (induction c)
  case Nil
  then show ?case by simp
next
  case (Cons n c)
  then have "map_of c (fst n) = None"
    by (simp add: map_of_eq_None_iff)
  with Cons show ?case
    by (auto simp: def_equals_def fun_eq_iff)
qed

lemma length_unlink:
  "def_equals kf \<Longrightarrow> k \<in> fst ` set c \<Longrightarrow> Suc (length (unlink kf k c)) = length c"
  by (induction c) (auto simp: def_equals_def)

subsection \<open>Bucket arrays\<close>

lemma length_concat_update:
  "i < length bs \<Longrightarrow>
     length (concat (bs[i := c])) + length (bs ! i) = length (concat bs) + length c"
proof (induction bs arbitrary: i)
  case Nil
  then show ?case by simp
next
  case (Cons b bs)
  then show ?case by (cases i) auto
qed

lemma mset_concat_update:
  "i < length bs \<Longrightarrow>
     mset (concat (bs[i := c])) + mset (bs ! i) = mset (concat bs) + mset c"
proof (induction bs arbitrary: i)
  case Nil
  then show ?case by simp
next
  case (Cons b bs)
  show ?case
  proof (cases i)
    case 0
    then show ?thesis by simp
  next
    case (Suc j)
    with Cons.prems have "j < length bs" by simp
    from Cons.IH [OF this] Suc show ?thesis by (simp add: ac_simps)
  qed
qed

lemma in_concat_nth: "n \<in> set (concat bs) \<longleftrightarrow> (\<exists>j < length bs. n \<in> set (bs ! j))"
proof -
  have "n \<in> set (concat bs) \<longleftrightarrow> (\<exists>c \<in> set bs. n \<in> set c)" by simp
  also have "\<dots> \<longleftrightarrow> (\<exists>j < length bs. n \<in> set (bs ! j))"
    by (metis in_set_conv_nth)
  finally show ?thesis .
qed

lemma placed_key:
  "placed kf d bs \<Longrightarrow> n \<in> set (concat bs) \<Longrightarrow>
     n \<in> set (bs ! unat (GetHashCode kf (fst n) mod prime d)) \<and>
     unat (GetHashCode kf (fst n) mod prime d) < length bs"
  unfolding placed_def in_concat_nth by auto

lemma placed_update:
  "placed kf d bs \<Longrightarrow> i < length bs \<Longrightarrow>
   (\<forall>n \<in> set c. unat (GetHashCode kf (fst n) mod prime d) = i) \<Longrightarrow> placed kf d (bs[i := c])"
  by (auto simp: placed_def nth_list_update)

lemma placed_snoc:
  "placed kf d (bs @ [c]) \<longleftrightarrow>
     placed kf d bs \<and> (\<forall>n \<in> set c. unat (GetHashCode kf (fst n) mod prime d) = length bs)"
  by (auto simp: placed_def nth_append less_Suc_eq)

lemma distinct_buckets_iff:
  "placed kf d bs \<Longrightarrow>
     distinct (map fst (concat bs)) \<longleftrightarrow> (\<forall>j < length bs. distinct (map fst (bs ! j)))"
proof (induction bs rule: rev_induct)
  case Nil
  then show ?case by simp
next
  case (snoc c bs)
  from snoc.prems have pl: "placed kf d bs"
    and c: "\<forall>n \<in> set c. unat (GetHashCode kf (fst n) mod prime d) = length bs"
    by (simp_all add: placed_snoc)
  have disj: "fst ` set (concat bs) \<inter> fst ` set c = {}"
  proof (rule ccontr)
    assume "fst ` set (concat bs) \<inter> fst ` set c \<noteq> {}"
    then obtain n m where n: "n \<in> set (concat bs)" and m: "m \<in> set c" and "fst n = fst m"
      by (auto simp: image_iff) metis
    with placed_key [OF pl n] c show False by auto
  qed
  from snoc.IH [OF pl] disj show ?case
    by (auto simp: nth_append less_Suc_eq)
qed

lemma map_of_concat_placed:
  assumes pl: "placed kf d bs" and i: "unat (GetHashCode kf k mod prime d) < length bs"
    and dist: "distinct (map fst (concat bs))"
  shows "map_of (concat bs) k = map_of (bs ! unat (GetHashCode kf k mod prime d)) k"
proof (cases "map_of (concat bs) k")
  case None
  then have "k \<notin> fst ` set (concat bs)" by (simp add: map_of_eq_None_iff)
  then have "k \<notin> fst ` set (bs ! unat (GetHashCode kf k mod prime d))"
    using i by (auto simp: in_concat_nth image_iff)
  then have "map_of (bs ! unat (GetHashCode kf k mod prime d)) k = None"
    by (simp add: map_of_eq_None_iff)
  with None show ?thesis by (simp only:)
next
  case (Some v)
  then have "(k, v) \<in> set (concat bs)" by (rule map_of_SomeD)
  from placed_key [OF pl this]
  have "(k, v) \<in> set (bs ! unat (GetHashCode kf k mod prime d))" by simp
  moreover have "distinct (map fst (bs ! unat (GetHashCode kf k mod prime d)))"
    using distinct_buckets_iff [OF pl] dist i by blast
  ultimately have "map_of (bs ! unat (GetHashCode kf k mod prime d)) k = Some v"
    by (rule map_of_is_SomeI [rotated])
  with Some show ?thesis by simp
qed

subsection \<open>Tables\<close>

lemma table_inv_new: "table_inv kf JitHashTable_new"
  by (simp add: table_inv_def JitHashTable_new_def JitPrimeInfo_default_def)

lemma unat_mod_less: "p \<noteq> 0 \<Longrightarrow> unat (x mod p) < unat (p :: 32 word)"
  by (simp add: unat_mod unat_gt_0)

lemma table_inv_SomeD:
  assumes "table_inv kf t" and "m_table t = Some bs"
  shows "exact (m_tableSizeInfo t)" and "length bs = unat (prime (m_tableSizeInfo t))"
    and "placed kf (m_tableSizeInfo t) bs" and "distinct (map fst (concat bs))"
    and "m_tableCount t = of_nat (length (concat bs))"
    and "prime (m_tableSizeInfo t) \<noteq> 0"
  using assms by (simp_all add: table_inv_def exact_def)

lemma table_inv_NoneD:
  assumes "table_inv kf t" and "m_table t = None"
  shows "prime (m_tableSizeInfo t) = 0" and "m_tableCount t = 0" and "m_tableMax t = 0"
  using assms by (simp_all add: table_inv_def)

lemma GetIndexForKey_inv:
  assumes "table_inv kf t" and "m_table t = Some bs"
  shows "GetIndexForKey kf t k = Inr (GetHashCode kf k mod prime (m_tableSizeInfo t))"
    and "unat (GetHashCode kf k mod prime (m_tableSizeInfo t)) < length bs"
  using table_inv_SomeD [OF assms] unat_mod_less [of "prime (m_tableSizeInfo t)" "GetHashCode kf k"]
  by (simp_all add: GetIndexForKey_def exact_def)

lemma bucket_at_inv:
  assumes "table_inv kf t" and "m_table t = Some bs"
  shows "bucket_at t (GetHashCode kf k mod prime (m_tableSizeInfo t))
           = Inr (bs ! unat (GetHashCode kf k mod prime (m_tableSizeInfo t)))"
  using GetIndexForKey_inv(2) [OF assms, of k] assms(2)
  by (simp add: bucket_at_def read_bucket_def)

lemma map_of_entries_bucket:
  assumes "table_inv kf t" and "m_table t = Some bs"
  shows "map_of (entries t) k = map_of (bs ! unat (GetHashCode kf k mod prime (m_tableSizeInfo t))) k"
  using map_of_concat_placed [OF table_inv_SomeD(3) [OF assms] GetIndexForKey_inv(2) [OF assms]
      table_inv_SomeD(4) [OF assms]] assms(2)
  by (simp add: entries_def)

lemma FindNode_inv:
  assumes inv: "table_inv kf t" and eq: "def_equals kf"
  shows "FindNode kf t k =
           Inr (case map_of (entries t) k of None \<Rightarrow> [] 
                | Some v \<Rightarrow> walk kf k (the (m_table t) ! unat (GetHashCode kf k mod prime (m_tableSizeInfo t))))"
    and "map_of (entries t) k = Some v \<Longrightarrow>
           \<exists>r. walk kf k (the (m_table t) ! unat (GetHashCode kf k mod prime (m_tableSizeInfo t))) = (k, v) # r"
proof -
  show "FindNode kf t k =
           Inr (case map_of (entries t) k of None \<Rightarrow> [] 
                | Some v \<Rightarrow> walk kf k (the (m_table t) ! unat (GetHashCode kf k mod prime (m_tableSizeInfo t))))"
  proof (cases "m_table t")
    case None
    with inv show ?thesis
      by (simp add: FindNode_def table_inv_NoneD entries_def)
  next
    case (Some bs)
    let ?c = "bs ! unat (GetHashCode kf k mod prime (m_tableSizeInfo t))"
    have m: "map_of (entries t) k = map_of ?c k" by (rule map_of_entries_bucket [OF inv Some])
    show ?thesis
    proof (cases "walk kf k ?c")
      case Nil
      then have "map_of ?c k = None" using eq by (rule walk_Nil_map_of [rotated])
      with Nil m Some inv show ?thesis
        by (simp add: FindNode_def GetIndexForKey_inv bucket_at_inv table_inv_SomeD Let_def)
    next
      case (Cons n r)
      then have "map_of ?c k = Some (snd n)" using eq by (rule walk_Cons_map_of [rotated])
      moreover have "?c \<noteq> []" using Cons by auto
      moreover have "Equals kf k (fst (hd (walk kf k ?c)))"
        using Cons by (intro walk_hd_Equals) simp
      ultimately show ?thesis using Cons m Some inv
        by (simp add: FindNode_def GetIndexForKey_inv bucket_at_inv table_inv_SomeD Let_def)
    qed
  qed
next
  assume v: "map_of (entries t) k = Some v"
  show "\<exists>r. walk kf k (the (m_table t) ! unat (GetHashCode kf k mod prime (m_tableSizeInfo t))) = (k, v) # r"
  proof (cases "m_table t")
    case None
    with v show ?thesis by (simp add: entries_def)
  next
    case (Some bs)
    let ?c = "bs ! unat (GetHashCode kf k mod prime (m_tableSizeInfo t))"
    have m: "map_of ?c k = Some v" using map_of_entries_bucket [OF inv Some, of k] v by simp
    show ?thesis
    proof (cases "walk kf k ?c")
      case Nil
      then have "map_of ?c k = None" using eq by (rule walk_Nil_map_of [rotated])
      with m show ?thesis by simp
    next
      case (Cons n r)
      from walk_Cons_map_of [OF eq Cons] walk_Cons_key [OF eq Cons] m
      have "n = (k, v)" by (cases n) simp
      with Cons Some show ?thesis by simp
    qed
  qed
qed

lemma Lookup_inv:
  assumes inv: "table_inv kf t" and eq: "def_equals kf"
  shows "Lookup kf t k pVal =
           Inr (case map_of (entries t) k of
                  None \<Rightarrow> (False, pVal)
                | Some v \<Rightarrow> (True, (case pVal of None \<Rightarrow> None | Some _ \<Rightarrow> Some v)))"
proof (cases "map_of (entries t) k")
  case None
  then show ?thesis by (simp add: Lookup_def FindNode_inv(1) [OF inv eq])
next
  case (Some v)
  from FindNode_inv(2) [OF inv eq Some] obtain r where
    "walk kf k (the (m_table t) ! unat (GetHashCode kf k mod prime (m_tableSizeInfo t))) = (k, v) # r" ..
  with Some show ?thesis
    by (simp add: Lookup_def FindNode_inv(1) [OF inv eq] split: option.splits)
qed

lemma table_inv_update:
  assumes inv: "table_inv kf t" and tab: "m_table t = Some bs" and i: "unat index < length bs"
    and pl: "\<forall>n \<in> set c. unat (GetHashCode kf (fst n) mod prime (m_tableSizeInfo t)) = unat index"
    and dist: "distinct (map fst c)"
    and cnt: "cnt = of_nat (length (concat (bs[unat index := c])))"
  shows "table_inv kf ((bucket_set t index c)\<lparr>m_tableCount := cnt\<rparr>)"
proof -
  note d = table_inv_SomeD [OF inv tab]
  have pl': "placed kf (m_tableSizeInfo t) (bs[unat index := c])"
    using d(3) i pl by (rule placed_update)
  have "\<forall>j < length bs. distinct (map fst (bs ! j))"
    using distinct_buckets_iff [OF d(3)] d(4) by blast
  then have "\<forall>j < length (bs[unat index := c]). distinct (map fst (bs[unat index := c] ! j))"
    using dist i by (auto simp: nth_list_update)
  then have "distinct (map fst (concat (bs[unat index := c])))"
    using distinct_buckets_iff [OF pl'] by blast
  with pl' d(1,2) cnt tab show ?thesis
    by (simp add: table_inv_def bucket_set_def)
qed

lemma map_of_entries_update:
  assumes inv: "table_inv kf t" and tab: "m_table t = Some bs" and i: "unat index < length bs"
    and pl: "\<forall>n \<in> set c. unat (GetHashCode kf (fst n) mod prime (m_tableSizeInfo t)) = unat index"
    and dist: "distinct (map fst c)"
    and cnt: "cnt = of_nat (length (concat (bs[unat index := c])))"
  shows "map_of (entries ((bucket_set t index c)\<lparr>m_tableCount := cnt\<rparr>)) k =
           (if unat (GetHashCode kf k mod prime (m_tableSizeInfo t)) = unat index
            then map_of c k else map_of (entries t) k)"
proof -
  let ?t' = "(bucket_set t index c)\<lparr>m_tableCount := cnt\<rparr>"
  have inv': "table_inv kf ?t'" using assms by (rule table_inv_update)
  have tab': "m_table ?t' = Some (bs[unat index := c])" using tab by (simp add: bucket_set_def)
  have sz: "m_tableSizeInfo ?t' = m_tableSizeInfo t" using tab by (simp add: bucket_set_def)
  from map_of_entries_bucket [OF inv' tab', of k] map_of_entries_bucket [OF inv tab, of k] i
  show ?thesis by (simp add: sz nth_list_update)
qed

subsection \<open>Rehashing\<close>

lemma length_push: "length (push kf d n bs) = length bs"
  by (simp add: push_def Let_def)

lemma length_fold_push: "length (fold (push kf d) ns bs) = length bs"
  by (induction ns arbitrary: bs) (simp_all add: length_push)

lemma length_rehash: "length (rehash kf d ns) = unat (prime d)"
  by (simp add: rehash_def length_fold_push)

lemma mset_concat_push:
  assumes "prime d \<noteq> 0" and "length bs = unat (prime d)"
  shows "mset (concat (push kf d n bs)) = add_mset n (mset (concat bs))"
proof -
  let ?i = "unat (GetHashCode kf (fst n) mod prime d)"
  have i: "?i < length bs" using assms by (simp add: unat_mod_less)
  from mset_concat_update [OF i, of "n # bs ! ?i"] show ?thesis
    by (simp add: push_def Let_def)
qed

lemma mset_concat_fold_push:
  assumes "prime d \<noteq> 0" and "length bs = unat (prime d)"
  shows "mset (concat (fold (push kf d) ns bs)) = mset ns + mset (concat bs)"
  using assms(2)
proof (induction ns arbitrary: bs)
  case Nil
  then show ?case by simp
next
  case (Cons n ns)
  have "length (push kf d n bs) = unat (prime d)" using Cons.prems by (simp add: length_push)
  from Cons.IH [OF this] mset_concat_push [OF assms(1) Cons.prems, of kf n]
  show ?case by simp
qed

lemma placed_push:
  assumes "prime d \<noteq> 0" and "length bs = unat (prime d)" and "placed kf d bs"
  shows "placed kf d (push kf d n bs)"
proof -
  let ?i = "unat (GetHashCode kf (fst n) mod prime d)"
  have i: "?i < length bs" using assms by (simp add: unat_mod_less)
  have "\<forall>m \<in> set (n # bs ! ?i). unat (GetHashCode kf (fst m) mod prime d) = ?i"
    using assms(3) i by (auto simp: placed_def)
  from placed_update [OF assms(3) i this] show ?thesis by (simp add: push_def Let_def)
qed

lemma placed_fold_push:
  assumes "prime d \<noteq> 0"
  shows "length bs = unat (prime d) \<Longrightarrow> placed kf d bs \<Longrightarrow> placed kf d (fold (push kf d) ns bs)"
proof (induction ns arbitrary: bs)
  case Nil
  then show ?case by simp
next
  case (Cons n ns)
  from Cons.prems have "length (push kf d n bs) = unat (prime d)" by (simp add: length_push)
  moreover have "placed kf d (push kf d n bs)" using assms Cons.prems by (rule placed_push)
  ultimately show ?case using Cons.IH by simp
qed

lemma placed_rehash: "prime d \<noteq> 0 \<Longrightarrow> placed kf d (rehash kf d ns)"
  unfolding rehash_def by (rule placed_fold_push) (simp_all add: placed_def)

lemma mset_concat_rehash: "prime d \<noteq> 0 \<Longrightarrow> mset (concat (rehash kf d ns)) = mset ns"
  by (simp add: rehash_def mset_concat_fold_push)

lemma move_chain_fold:
  assumes "exact d"
  shows "length nt = unat (prime d) \<Longrightarrow> move_chain kf d c nt = Inr (fold (push kf d) c nt)"
proof (induction c arbitrary: nt)
  case Nil
  then show ?case by simp
next
  case (Cons n c)
  from assms have p: "prime d \<noteq> 0" and r: "\<And>x. magicNumberRem d x = Inr (x mod prime d)"
    by (simp_all add: exact_def)
  have i: "unat (GetHashCode kf (fst n) mod prime d) < length nt"
    using p Cons.prems by (simp add: unat_mod_less)
  have "length (push kf d n nt) = unat (prime d)" using Cons.prems by (simp add: length_push)
  from Cons.IH [OF this] i show ?case by (simp add: r push_def Let_def)
qed

lemma move_buckets_fold:
  "exact d \<Longrightarrow> m_table t = Some bs \<Longrightarrow> length bs = unat (prime (m_tableSizeInfo t)) \<Longrightarrow>
   unat i \<le> length bs \<Longrightarrow> length nt = unat (prime d) \<Longrightarrow>
     move_buckets kf d t i nt = Inr (fold (push kf d) (concat (drop (unat i) bs)) nt)"
proof (induction kf d t i nt rule: move_buckets.induct)
  case (1 kf d t i nt)
  show ?case
  proof (cases "i < prime (m_tableSizeInfo t)")
    case False
    then have "length bs \<le> unat i" using "1.prems" by (simp add: word_less_nat_alt)
    with False show ?thesis by simp
  next
    case True
    then have ui: "unat i < length bs" using "1.prems" by (simp add: word_less_nat_alt)
    have i1: "unat (i + 1) = Suc (unat i)"
      using True unsigned_less [of "prime (m_tableSizeInfo t)", where 'a = nat]
      by (simp add: word_less_nat_alt unat_word_ariths)
    have b: "bucket_at t i = Inr (bs ! unat i)"
      using ui "1.prems" by (simp add: bucket_at_def read_bucket_def)
    have mc: "move_chain kf d (bs ! unat i) nt = Inr (fold (push kf d) (bs ! unat i) nt)"
      using "1.prems" by (intro move_chain_fold) simp_all
    have "move_buckets kf d t (i + 1) (fold (push kf d) (bs ! unat i) nt)
            = Inr (fold (push kf d) (concat (drop (unat (i + 1)) bs))
                     (fold (push kf d) (bs ! unat i) nt))"
      using "1.prems" ui i1 by (intro "1.IH" [OF True b mc]) (simp_all add: length_fold_push)
    moreover have "drop (unat i) bs = bs ! unat i # drop (Suc (unat i)) bs"
      using ui by (simp add: Cons_nth_drop_Suc)
    ultimately show ?thesis
      using True b mc i1 by simp
  qed
qed

lemma move_buckets_None:
  "prime (m_tableSizeInfo t) = 0 \<Longrightarrow> move_buckets kf d t 0 nt = Inr nt"
  by simp

lemma NextPrime_Inr:
  "NextPrime tbl n = Inr d \<Longrightarrow> d \<in> set tbl \<and> n \<le> prime d"
  by (induction tbl) (auto split: if_splits)

lemma NextPrime_Inl: "NextPrime tbl n = Inl e \<Longrightarrow> e = NoMemory"
  by (induction tbl) (auto split: if_splits)


lemma Reallocate_inv:
  assumes inv: "table_inv kf t" and tbl: "exact_table tbl"
  shows "Reallocate tbl kf t n =
           (if \<not> (GetCount t * s_density_factor_denominator div s_density_factor_numerator \<le> n)
            then Inl AssertionFailed
            else
              (case NextPrime tbl n of
                 Inl e \<Rightarrow> Inl e
               | Inr d \<Rightarrow>
                   Inr (t\<lparr>m_table := Some (rehash kf d (entries t)),
                          m_tableSizeInfo := d,
                          m_tableMax := prime d * s_density_factor_numerator
                                          div s_density_factor_denominator\<rparr>)))"
proof (cases "NextPrime tbl n")
  case (Inl e)
  then show ?thesis by (simp add: Reallocate_def)
next
  case (Inr d)
  then have d: "exact d" using tbl NextPrime_Inr by (auto simp: exact_table_def)
  have "move_buckets kf d t 0 (replicate (unat (prime d)) []) = Inr (rehash kf d (entries t))"
  proof (cases "m_table t")
    case None
    with inv show ?thesis
      by (simp add: table_inv_NoneD entries_def rehash_def)
  next
    case (Some bs)
    from move_buckets_fold [OF d Some table_inv_SomeD(2) [OF inv Some], of 0
        "replicate (unat (prime d)) []" kf] Some
    show ?thesis by (simp add: entries_def rehash_def)
  qed
  with Inr show ?thesis by (simp add: Reallocate_def Let_def)
qed

lemma table_inv_rehashed:
  assumes inv: "table_inv kf t" and d: "exact d"
  shows "table_inv kf (t\<lparr>m_table := Some (rehash kf d (entries t)), m_tableSizeInfo := d,
                          m_tableMax := mx\<rparr>)"
proof -
  from d have p: "prime d \<noteq> 0" by (simp add: exact_def)
  have ms: "mset (concat (rehash kf d (entries t))) = mset (entries t)"
    using p by (rule mset_concat_rehash)
  then have "mset (map fst (concat (rehash kf d (entries t)))) = mset (map fst (entries t))"
    by (metis mset_map)
  moreover have "distinct (map fst (entries t))"
    using inv by (cases "m_table t") (simp_all add: entries_def table_inv_SomeD)
  ultimately have dist: "distinct (map fst (concat (rehash kf d (entries t))))"
    by (metis mset_eq_imp_distinct_iff)
  have "length (concat (rehash kf d (entries t))) = length (entries t)"
    using ms by (metis size_mset)
  moreover have "m_tableCount t = of_nat (length (entries t))"
    using inv by (cases "m_table t") (simp_all add: entries_def table_inv_SomeD table_inv_NoneD)
  ultimately show ?thesis
    using d p dist by (simp add: table_inv_def length_rehash placed_rehash)
qed

lemma entries_rehashed:
  assumes "exact d"
  shows "mset (entries (t\<lparr>m_table := Some (rehash kf d (entries t)), m_tableSizeInfo := d,
                          m_tableMax := mx\<rparr>)) = mset (entries t)"
  using assms by (simp add: entries_def mset_concat_rehash exact_def)

subsection \<open>Growth\<close>

lemma Reallocate_resized:
  assumes "table_inv kf t" and "exact_table tbl" and "Reallocate tbl kf t n = Inr t'"
  shows "\<exists>d. NextPrime tbl n = Inr d \<and> t' = resized kf d t"
  using assms(3) unfolding Reallocate_inv [OF assms(1,2)] resized_def
  by (auto split: if_splits sum.splits)

lemma table_inv_resized: "table_inv kf t \<Longrightarrow> exact d \<Longrightarrow> table_inv kf (resized kf d t)"
  unfolding resized_def by (rule table_inv_rehashed)

lemma mset_entries_resized: "exact d \<Longrightarrow> mset (entries (resized kf d t)) = mset (entries t)"
  unfolding resized_def by (rule entries_rehashed)

lemma resized_simps:
  "m_table (resized kf d t) = Some (rehash kf d (entries t))"
  "m_tableSizeInfo (resized kf d t) = d"
  "m_tableCount (resized kf d t) = m_tableCount t"
  "m_tableMax (resized kf d t) = prime d * s_density_factor_numerator div s_density_factor_denominator"
  by (simp_all add: resized_def)

lemma distinct_entries: "table_inv kf t \<Longrightarrow> distinct (map fst (entries t))"
  by (cases "m_table t") (simp_all add: entries_def table_inv_SomeD)

lemma count_entries: "table_inv kf t \<Longrightarrow> m_tableCount t = of_nat (length (entries t))"
  by (cases "m_table t") (simp_all add: entries_def table_inv_SomeD table_inv_NoneD)

lemma map_of_mset_eq:
  assumes "mset xs = mset ys" and "distinct (map fst xs)"
  shows "map_of xs = map_of ys"
proof -
  have "mset (map fst xs) = mset (map fst ys)" using assms(1) by (metis mset_map)
  then have "distinct (map fst ys)" using assms(2) by (metis mset_eq_imp_distinct_iff)
  moreover have "set xs = set ys" using assms(1) by (rule mset_eq_setD)
  ultimately show ?thesis using assms(2) by (simp add: map_of_inject_set)
qed

lemma map_of_entries_resized:
  "table_inv kf t \<Longrightarrow> exact d \<Longrightarrow> map_of (entries (resized kf d t)) = map_of (entries t)"
  using map_of_mset_eq [OF mset_entries_resized distinct_entries [OF table_inv_resized]]
  by blast

lemma Grow_resized:
  assumes "table_inv kf t" and "exact_table tbl" and "Grow tbl kf t = Inr t'"
  shows "\<exists>d. NextPrime tbl (Grow_newSize (m_tableCount t)) = Inr d \<and> t' = resized kf d t"
  using assms(3) Reallocate_resized [OF assms(1,2)]
  by (auto simp: Grow_def Let_def split: if_splits)

lemma CheckGrowth_cases:
  assumes "table_inv kf t" and "exact_table tbl" and "CheckGrowth tbl kf t = Inr t1"
  shows "(m_tableCount t \<noteq> m_tableMax t \<and> t1 = t) \<or>
         (m_tableCount t = m_tableMax t \<and>
          (\<exists>d. NextPrime tbl (Grow_newSize (m_tableCount t)) = Inr d \<and> t1 = resized kf d t))"
  using assms(3) Grow_resized [OF assms(1,2)]
  by (auto simp: CheckGrowth_def split: if_splits)

lemma CheckGrowth_inv:
  assumes inv: "table_inv kf t" and tbl: "exact_table tbl" and cg: "CheckGrowth tbl kf t = Inr t1"
  shows "table_inv kf t1" and "map_of (entries t1) = map_of (entries t)"
    and "mset (entries t1) = mset (entries t)"
    and "m_table t1 \<noteq> None" and "prime (m_tableSizeInfo t1) \<noteq> 0"
    and "m_tableCount t1 = m_tableCount t"
proof -
  from CheckGrowth_cases [OF assms]
  consider (same) "m_tableCount t \<noteq> m_tableMax t" "t1 = t"
    | (grown) d where "NextPrime tbl (Grow_newSize (m_tableCount t)) = Inr d" "t1 = resized kf d t"
    by blast
  then have "table_inv kf t1 \<and> map_of (entries t1) = map_of (entries t) \<and>
      mset (entries t1) = mset (entries t) \<and> m_table t1 \<noteq> None \<and> m_tableCount t1 = m_tableCount t"
  proof cases
    case same
    then have "m_table t \<noteq> None" using inv by (auto simp: table_inv_def split: option.splits)
    with same inv show ?thesis by simp
  next
    case grown
    then have "exact d" using tbl NextPrime_Inr by (auto simp: exact_table_def)
    with grown inv show ?thesis
      by (simp add: table_inv_resized map_of_entries_resized mset_entries_resized resized_simps)
  qed
  then show "table_inv kf t1" and "map_of (entries t1) = map_of (entries t)"
    and "mset (entries t1) = mset (entries t)"
    and "m_table t1 \<noteq> None" and "m_tableCount t1 = m_tableCount t" by simp_all
  then show "prime (m_tableSizeInfo t1) \<noteq> 0" by (auto simp: table_inv_def exact_def)
qed

subsection \<open>Changing one chain\<close>

lemma bucket_update_refines:
  assumes inv: "table_inv kf t" and tab: "m_table t = Some bs"
    and index: "index = GetHashCode kf k mod prime (m_tableSizeInfo t)"
    and keys: "fst ` set c \<subseteq> insert k (fst ` set (bs ! unat index))"
    and dist: "distinct (map fst c)"
    and cnt: "cnt = of_nat (length (concat (bs[unat index := c])))"
    and m: "map_of c = (map_of (bs ! unat index))(k := x)"
  shows "table_inv kf ((bucket_set t index c)\<lparr>m_tableCount := cnt\<rparr>)"
    and "map_of (entries ((bucket_set t index c)\<lparr>m_tableCount := cnt\<rparr>)) = (map_of (entries t))(k := x)"
proof -
  note d = table_inv_SomeD [OF inv tab]
  have i: "unat index < length bs"
    unfolding index by (rule GetIndexForKey_inv(2) [OF inv tab])
  have pl: "\<forall>n \<in> set c. unat (GetHashCode kf (fst n) mod prime (m_tableSizeInfo t)) = unat index"
  proof
    fix n assume "n \<in> set c"
    with keys consider "fst n = k" | m where "m \<in> set (bs ! unat index)" "fst n = fst m"
      by (auto simp: image_iff subset_iff)
    then show "unat (GetHashCode kf (fst n) mod prime (m_tableSizeInfo t)) = unat index"
    proof cases
      case 1
      then show ?thesis by (simp add: index)
    next
      case 2
      with d(3) i show ?thesis by (auto simp: placed_def)
    qed
  qed
  show "table_inv kf ((bucket_set t index c)\<lparr>m_tableCount := cnt\<rparr>)"
    using inv tab i pl dist cnt by (rule table_inv_update)
  show "map_of (entries ((bucket_set t index c)\<lparr>m_tableCount := cnt\<rparr>)) = (map_of (entries t))(k := x)"
  proof
    fix k'
    show "map_of (entries ((bucket_set t index c)\<lparr>m_tableCount := cnt\<rparr>)) k' = ((map_of (entries t))(k := x)) k'"
      unfolding map_of_entries_update [OF inv tab i pl dist cnt]
      using map_of_entries_bucket [OF inv tab, of k'] m index
      by auto
  qed
qed

subsection \<open>Insertion, overwriting and removal\<close>

lemma chain_of_Some: "m_table t = Some bs \<Longrightarrow>
    chain_of kf t k = bs ! unat (GetHashCode kf k mod prime (m_tableSizeInfo t))"
  by (simp add: chain_of_def)

lemma map_of_chain_of:
  "table_inv kf t \<Longrightarrow> m_table t \<noteq> None \<Longrightarrow> map_of (chain_of kf t k) k = map_of (entries t) k"
  by (auto simp: chain_of_Some map_of_entries_bucket)

lemma distinct_chain_of:
  assumes "table_inv kf t" and "m_table t = Some bs"
  shows "distinct (map fst (chain_of kf t k))"
  using distinct_buckets_iff [OF table_inv_SomeD(3) [OF assms]] table_inv_SomeD(4) [OF assms]
    GetIndexForKey_inv(2) [OF assms, of k] assms(2)
  by (simp add: chain_of_Some)

lemma word_of_nat_Suc: "(of_nat n :: 32 word) + 1 = of_nat (Suc n)"
  by simp

lemma with_new_node_inv:
  assumes inv: "table_inv kf t" and tab: "m_table t \<noteq> None" and eq: "def_equals kf"
    and absent: "map_of (entries t) k = None"
  shows "table_inv kf (with_new_node kf t k v)"
    and "map_of (entries (with_new_node kf t k v)) = (map_of (entries t))(k \<mapsto> v)"
proof -
  from tab obtain bs where bs: "m_table t = Some bs" by auto
  let ?index = "GetHashCode kf k mod prime (m_tableSizeInfo t)"
  let ?c = "(k, v) # chain_of kf t k"
  have i: "unat ?index < length bs" by (rule GetIndexForKey_inv(2) [OF inv bs])
  have ch: "chain_of kf t k = bs ! unat ?index" using bs by (rule chain_of_Some)
  have "map_of (chain_of kf t k) k = None" using map_of_chain_of [OF inv tab] absent by simp
  then have nk: "k \<notin> fst ` set (chain_of kf t k)" by (simp add: map_of_eq_None_iff)
  have "length (concat (bs[unat ?index := ?c])) = Suc (length (concat bs))"
    using length_concat_update [OF i, of ?c] ch by simp
  then have cnt: "m_tableCount t + 1 = of_nat (length (concat (bs[unat ?index := ?c])))"
    using table_inv_SomeD(5) [OF inv bs] by simp
  have keys: "fst ` set ?c \<subseteq> insert k (fst ` set (bs ! unat ?index))" using ch by auto
  have dist: "distinct (map fst ?c)" using nk distinct_chain_of [OF inv bs, of k] by simp
  have m: "map_of ?c = (map_of (bs ! unat ?index))(k := Some v)" using ch by auto
  from bucket_update_refines [OF inv bs refl keys dist cnt m]
  show "table_inv kf (with_new_node kf t k v)"
    and "map_of (entries (with_new_node kf t k v)) = (map_of (entries t))(k \<mapsto> v)"
    by (simp_all add: with_new_node_def)
qed

lemma with_value_inv:
  assumes inv: "table_inv kf t" and tab: "m_table t \<noteq> None" and eq: "def_equals kf"
    and present: "map_of (entries t) k = Some old"
  shows "table_inv kf (with_value kf t k v)"
    and "map_of (entries (with_value kf t k v)) = (map_of (entries t))(k \<mapsto> v)"
    and "m_tableCount (with_value kf t k v) = m_tableCount t"
proof -
  from tab obtain bs where bs: "m_table t = Some bs" by auto
  let ?index = "GetHashCode kf k mod prime (m_tableSizeInfo t)"
  let ?c = "assign_val kf k v (chain_of kf t k)"
  have i: "unat ?index < length bs" by (rule GetIndexForKey_inv(2) [OF inv bs])
  have ch: "chain_of kf t k = bs ! unat ?index" using bs by (rule chain_of_Some)
  have "map_of (chain_of kf t k) k = Some old" using map_of_chain_of [OF inv tab] present by simp
  then have ik: "k \<in> fst ` set (chain_of kf t k)"
    by (metis map_of_eq_None_iff option.distinct(1))
  have "length (concat (bs[unat ?index := ?c])) = length (concat bs)"
    using length_concat_update [OF i, of ?c] ch by (simp add: length_assign_val)
  then have cnt: "m_tableCount t = of_nat (length (concat (bs[unat ?index := ?c])))"
    using table_inv_SomeD(5) [OF inv bs] by simp
  have kc: "map fst ?c = map fst (chain_of kf t k)" by (rule keys_assign_val)
  have "set (map fst ?c) = set (map fst (chain_of kf t k))" by (simp only: kc)
  then have keys: "fst ` set ?c \<subseteq> insert k (fst ` set (bs ! unat ?index))"
    using ch by auto
  have dist: "distinct (map fst ?c)"
    using distinct_chain_of [OF inv bs, of k] by (simp only: kc)
  have m: "map_of ?c = (map_of (bs ! unat ?index))(k := Some v)"
    using map_of_assign_val [OF eq ik] ch by simp
  have same: "(bucket_set t ?index ?c)\<lparr>m_tableCount := m_tableCount t\<rparr> = with_value kf t k v"
    using bs by (simp add: with_value_def bucket_set_def)
  from bucket_update_refines [OF inv bs refl keys dist cnt m]
  show "table_inv kf (with_value kf t k v)"
    and "map_of (entries (with_value kf t k v)) = (map_of (entries t))(k \<mapsto> v)"
    by (simp_all add: same)
  show "m_tableCount (with_value kf t k v) = m_tableCount t"
    using bs by (simp add: with_value_def bucket_set_def)
qed

lemma without_node_inv:
  assumes inv: "table_inv kf t" and tab: "m_table t \<noteq> None" and eq: "def_equals kf"
    and present: "map_of (entries t) k = Some old"
  shows "table_inv kf (without_node kf t k)"
    and "map_of (entries (without_node kf t k)) = (map_of (entries t))(k := None)"
proof -
  from tab obtain bs where bs: "m_table t = Some bs" by auto
  let ?index = "GetHashCode kf k mod prime (m_tableSizeInfo t)"
  let ?c = "unlink kf k (chain_of kf t k)"
  have i: "unat ?index < length bs" by (rule GetIndexForKey_inv(2) [OF inv bs])
  have ch: "chain_of kf t k = bs ! unat ?index" using bs by (rule chain_of_Some)
  have "map_of (chain_of kf t k) k = Some old" using map_of_chain_of [OF inv tab] present by simp
  then have ik: "k \<in> fst ` set (chain_of kf t k)"
    by (metis map_of_eq_None_iff option.distinct(1))
  have "Suc (length (concat (bs[unat ?index := ?c]))) = length (concat bs)"
    using length_concat_update [OF i, of ?c] ch length_unlink [OF eq ik] by simp
  then have "of_nat (length (concat (bs[unat ?index := ?c]))) + 1 = (of_nat (length (concat bs)) :: 32 word)"
    by (metis word_of_nat_Suc)
  then have "(of_nat (length (concat bs)) :: 32 word) - 1 = of_nat (length (concat (bs[unat ?index := ?c])))"
    by (metis add_diff_cancel_right')
  then have cnt: "m_tableCount t - 1 = of_nat (length (concat (bs[unat ?index := ?c])))"
    by (simp only: table_inv_SomeD(5) [OF inv bs])
  have keys: "fst ` set ?c \<subseteq> insert k (fst ` set (bs ! unat ?index))"
    using set_unlink [of kf k "chain_of kf t k"] ch by auto
  have dist: "distinct (map fst ?c)"
    using distinct_chain_of [OF inv bs, of k] by (rule distinct_unlink)
  have m: "map_of ?c = (map_of (bs ! unat ?index))(k := None)"
    using map_of_unlink [OF eq distinct_chain_of [OF inv bs, of k]] ch by simp
  from bucket_update_refines [OF inv bs refl keys dist cnt m]
  show "table_inv kf (without_node kf t k)"
    and "map_of (entries (without_node kf t k)) = (map_of (entries t))(k := None)"
    by (simp_all add: without_node_def)
qed

lemma walk_chain_of:
  assumes inv: "table_inv kf t" and tab: "m_table t \<noteq> None" and eq: "def_equals kf"
  shows "map_of (entries t) k = None \<Longrightarrow> walk kf k (chain_of kf t k) = []"
    and "map_of (entries t) k = Some old \<Longrightarrow> \<exists>r. walk kf k (chain_of kf t k) = (k, old) # r"
proof -
  assume "map_of (entries t) k = None"
  then have "map_of (chain_of kf t k) k = None" using map_of_chain_of [OF inv tab] by simp
  then show "walk kf k (chain_of kf t k) = []"
    using eq by (simp add: walk_Nil_iff map_of_eq_None_iff)
next
  assume "map_of (entries t) k = Some old"
  then show "\<exists>r. walk kf k (chain_of kf t k) = (k, old) # r"
    using FindNode_inv(2) [OF inv eq] tab by (auto simp: chain_of_def)
qed

lemma index_chain_of:
  assumes inv: "table_inv kf t" and tab: "m_table t \<noteq> None"
  shows "GetIndexForKey kf t k = Inr (GetHashCode kf k mod prime (m_tableSizeInfo t))"
    and "bucket_at t (GetHashCode kf k mod prime (m_tableSizeInfo t)) = Inr (chain_of kf t k)"
  using tab GetIndexForKey_inv(1) [OF inv] bucket_at_inv [OF inv]
  by (auto simp: chain_of_def)

lemma Set_eq:
  assumes inv: "table_inv kf t" and eq: "def_equals kf" and tbl: "exact_table tbl"
  shows "Set tbl kf t k v kind =
           (case CheckGrowth tbl kf t of
              Inl e \<Rightarrow> Inl e
            | Inr t1 \<Rightarrow>
                (case map_of (entries t) k of
                   Some old \<Rightarrow>
                     if kind = Overwrite then Inr (True, with_value kf t1 k v)
                     else Inl AssertionFailed
                 | None \<Rightarrow> Inr (False, with_new_node kf t1 k v)))"
proof (cases "CheckGrowth tbl kf t")
  case (Inl e)
  then show ?thesis by (simp add: Set_def)
next
  case (Inr t1)
  note cg = CheckGrowth_inv [OF inv tbl Inr]
  note ix = index_chain_of [OF cg(1) cg(4)]
  show ?thesis
  proof (cases "map_of (entries t) k")
    case None
    then have "walk kf k (chain_of kf t1 k) = []"
      using walk_chain_of(1) [OF cg(1) cg(4) eq] cg(2) by simp
    with Inr None cg(5) show ?thesis
      by (simp add: Set_def ix with_new_node_def)
  next
    case (Some old)
    then obtain r where "walk kf k (chain_of kf t1 k) = (k, old) # r"
      using walk_chain_of(2) [OF cg(1) cg(4) eq] cg(2) by auto
    with Inr Some cg(5) show ?thesis
      by (simp add: Set_def ix with_value_def)
  qed
qed

lemma LookupPointerOrAdd_eq:
  assumes inv: "table_inv kf t" and eq: "def_equals kf" and tbl: "exact_table tbl"
  shows "LookupPointerOrAdd tbl kf t k v =
           (case CheckGrowth tbl kf t of
              Inl e \<Rightarrow> Inl e
            | Inr t1 \<Rightarrow>
                (case map_of (entries t) k of
                   Some old \<Rightarrow> Inr (old, t1)
                 | None \<Rightarrow> Inr (v, with_new_node kf t1 k v)))"
proof (cases "CheckGrowth tbl kf t")
  case (Inl e)
  then show ?thesis by (simp add: LookupPointerOrAdd_def)
next
  case (Inr t1)
  note cg = CheckGrowth_inv [OF inv tbl Inr]
  note ix = index_chain_of [OF cg(1) cg(4)]
  show ?thesis
  proof (cases "map_of (entries t) k")
    case None
    then have "walk kf k (chain_of kf t1 k) = []"
      using walk_chain_of(1) [OF cg(1) cg(4) eq] cg(2) by simp
    with Inr None cg(5) show ?thesis
      by (simp add: LookupPointerOrAdd_def ix with_new_node_def)
  next
    case (Some old)
    then obtain r where "walk kf k (chain_of kf t1 k) = (k, old) # r"
      using walk_chain_of(2) [OF cg(1) cg(4) eq] cg(2) by auto
    with Inr Some cg(5) show ?thesis
      by (simp add: LookupPointerOrAdd_def ix)
  qed
qed

lemma Emplace_eq:
  assumes inv: "table_inv kf t" and eq: "def_equals kf" and tbl: "exact_table tbl"
  shows "Emplace tbl kf t k v = LookupPointerOrAdd tbl kf t k v"
  by (auto simp: Emplace_def LookupPointerOrAdd_def split: sum.splits list.splits)

lemma Remove_eq:
  assumes inv: "table_inv kf t" and tab: "m_table t \<noteq> None" and eq: "def_equals kf"
  shows "Remove kf t k =
           Inr (case map_of (entries t) k of
                  None \<Rightarrow> (False, t)
                | Some old \<Rightarrow> (True, without_node kf t k))"
proof (cases "map_of (entries t) k")
  case None
  then have "walk kf k (chain_of kf t k) = []" by (rule walk_chain_of(1) [OF inv tab eq])
  with None show ?thesis by (simp add: Remove_def index_chain_of [OF inv tab])
next
  case (Some old)
  then obtain r where "walk kf k (chain_of kf t k) = (k, old) # r"
    using walk_chain_of(2) [OF inv tab eq] by auto
  with Some show ?thesis
    by (simp add: Remove_def index_chain_of [OF inv tab] without_node_def)
qed

lemma free_buckets_ok:
  "m_table t = Some bs \<Longrightarrow> length bs = unat (prime (m_tableSizeInfo t)) \<Longrightarrow>
     free_buckets t i = Inr ()"
proof (induction t i rule: free_buckets.induct)
  case (1 t i)
  show ?case
  proof (cases "i < prime (m_tableSizeInfo t)")
    case False
    then show ?thesis by simp
  next
    case True
    then have b: "bucket_at t i = Inr (bs ! unat i)"
      using "1.prems" by (simp add: bucket_at_def read_bucket_def word_less_nat_alt)
    from "1.IH" [OF True b "1.prems"] True b show ?thesis by simp
  qed
qed

lemma RemoveAll_eq: "table_inv kf t \<Longrightarrow> RemoveAll t = Inr JitHashTable_new"
proof (cases "m_table t")
  case None
  assume "table_inv kf t"
  with None have "free_buckets t 0 = Inr ()" by (simp add: table_inv_NoneD)
  then show ?thesis by (simp add: RemoveAll_def JitHashTable_new_def)
next
  case (Some bs)
  assume "table_inv kf t"
  from free_buckets_ok [OF Some table_inv_SomeD(2) [OF this Some]]
  show ?thesis by (simp add: RemoveAll_def JitHashTable_new_def)
qed

lemma magicNumberRem_zero: "prime d = 0 \<Longrightarrow> magicNumberRem d x = Inl UndefinedBehaviour"
  by (simp add: magicNumberRem_def magicNumberDivide_def Let_def)

lemma Remove_unallocated:
  "prime (m_tableSizeInfo t) = 0 \<Longrightarrow> Remove kf t k = Inl UndefinedBehaviour"
  by (simp add: Remove_def GetIndexForKey_def magicNumberRem_zero)

lemma perform_refines:
  assumes inv: "table_inv kf t" and eq: "def_equals kf" and tbl: "exact_table tbl"
    and ok: "perform tbl kf t c = Inr t'"
  shows "table_inv kf t' \<and> map_of (entries t') = spec_call (map_of (entries t)) c"
proof (cases c)
  case (CallSet k v kind)
  with ok obtain b where s: "Set tbl kf t k v kind = Inr (b, t')"
    by (auto split: sum.splits)
  then obtain t1 where cg: "CheckGrowth tbl kf t = Inr t1"
    unfolding Set_eq [OF inv eq tbl] by (auto split: sum.splits)
  note g = CheckGrowth_inv [OF inv tbl cg]
  show ?thesis
  proof (cases "map_of (entries t) k")
    case None
    with s cg have "t' = with_new_node kf t1 k v" unfolding Set_eq [OF inv eq tbl] by auto
    with with_new_node_inv [OF g(1) g(4) eq, of k v] g(2) None CallSet show ?thesis by simp
  next
    case (Some old)
    with s cg have "t' = with_value kf t1 k v"
      unfolding Set_eq [OF inv eq tbl] by (auto split: if_splits)
    with with_value_inv [OF g(1) g(4) eq, of k old v] g(2) Some CallSet show ?thesis by simp
  qed
next
  case (CallLookupPointerOrAdd k v)
  with ok obtain b where s: "LookupPointerOrAdd tbl kf t k v = Inr (b, t')"
    by (auto split: sum.splits)
  then obtain t1 where cg: "CheckGrowth tbl kf t = Inr t1"
    unfolding LookupPointerOrAdd_eq [OF inv eq tbl] by (auto split: sum.splits)
  note g = CheckGrowth_inv [OF inv tbl cg]
  show ?thesis
  proof (cases "map_of (entries t) k")
    case None
    with s cg have "t' = with_new_node kf t1 k v"
      unfolding LookupPointerOrAdd_eq [OF inv eq tbl] by auto
    with with_new_node_inv [OF g(1) g(4) eq, of k v] g(2) None CallLookupPointerOrAdd
    show ?thesis by simp
  next
    case (Some old)
    with s cg have "t' = t1" unfolding LookupPointerOrAdd_eq [OF inv eq tbl] by auto
    with g(1,2) Some CallLookupPointerOrAdd show ?thesis by simp
  qed
next
  case (CallEmplace k v)
  with ok obtain b where s: "LookupPointerOrAdd tbl kf t k v = Inr (b, t')"
    by (auto simp: Emplace_eq [OF inv eq tbl] split: sum.splits)
  then obtain t1 where cg: "CheckGrowth tbl kf t = Inr t1"
    unfolding LookupPointerOrAdd_eq [OF inv eq tbl] by (auto split: sum.splits)
  note g = CheckGrowth_inv [OF inv tbl cg]
  show ?thesis
  proof (cases "map_of (entries t) k")
    case None
    with s cg have "t' = with_new_node kf t1 k v"
      unfolding LookupPointerOrAdd_eq [OF inv eq tbl] by auto
    with with_new_node_inv [OF g(1) g(4) eq, of k v] g(2) None CallEmplace
    show ?thesis by simp
  next
    case (Some old)
    with s cg have "t' = t1" unfolding LookupPointerOrAdd_eq [OF inv eq tbl] by auto
    with g(1,2) Some CallEmplace show ?thesis by simp
  qed
next
  case (CallRemove k)
  with ok obtain b where s: "Remove kf t k = Inr (b, t')" by (auto split: sum.splits)
  have tab: "m_table t \<noteq> None"
  proof
    assume "m_table t = None"
    with inv have "Remove kf t k = Inl UndefinedBehaviour"
      by (simp add: Remove_unallocated table_inv_NoneD)
    with s show False by simp
  qed
  show ?thesis
  proof (cases "map_of (entries t) k")
    case None
    with s have "t' = t" unfolding Remove_eq [OF inv tab eq] by auto
    with inv None CallRemove show ?thesis by (simp add: fun_upd_idem)
  next
    case (Some old)
    with s have "t' = without_node kf t k" unfolding Remove_eq [OF inv tab eq] by auto
    with without_node_inv [OF inv tab eq Some] CallRemove show ?thesis by simp
  qed
next
  case CallRemoveAll
  with ok RemoveAll_eq [OF inv] have "t' = JitHashTable_new" by simp
  with CallRemoveAll show ?thesis
    by (simp add: table_inv_new) (simp add: entries_def JitHashTable_new_def)
next
  case (CallReallocate n)
  with ok Reallocate_resized [OF inv tbl] obtain d where
    d: "NextPrime tbl n = Inr d" "t' = resized kf d t" by auto
  then have "exact d" using tbl NextPrime_Inr by (auto simp: exact_table_def)
  with d inv CallReallocate show ?thesis
    by (simp add: table_inv_resized map_of_entries_resized)
qed

lemma run_refines:
  assumes eq: "def_equals kf" and tbl: "exact_table tbl"
  shows "table_inv kf t \<Longrightarrow> run tbl kf t cs = Inr t' \<Longrightarrow>
           table_inv kf t' \<and> map_of (entries t') = foldl spec_call (map_of (entries t)) cs"
proof (induction cs arbitrary: t)
  case Nil
  then show ?case by simp
next
  case (Cons c cs)
  from Cons.prems(2) obtain t1 where p: "perform tbl kf t c = Inr t1" and r: "run tbl kf t1 cs = Inr t'"
    by (auto split: sum.splits)
  from perform_refines [OF Cons.prems(1) eq tbl p] Cons.IH [OF _ r] show ?case by simp
qed

subsection \<open>Iteration\<close>

lemma unat_plus_one: "(i :: 32 word) < n \<Longrightarrow> unat (i + 1) = Suc (unat i)"
  using unsigned_less [of n, where 'a = nat]
  by (simp add: word_less_nat_alt unat_word_ariths)

lemma skip_empty_bounds:
  "skip_empty tab sz i = Inr j \<Longrightarrow> (if i < sz then i \<le> j \<and> j \<le> sz else j = i)"
proof (induction tab sz i rule: skip_empty.induct)
  case (1 tab sz i)
  show ?case
  proof (cases "i < sz")
    case False
    with 1 show ?thesis by simp
  next
    case True
    note i1 = unat_plus_one [OF True]
    show ?thesis
    proof (cases "read_bucket tab i")
      case (Inl e)
      with 1 True show ?thesis by simp
    next
      case (Inr chain)
      show ?thesis
      proof (cases "chain = []")
        case False
        with 1 True Inr show ?thesis by simp
      next
        case c: True
        with 1(2) True Inr have r: "skip_empty tab sz (i + 1) = Inr j" by simp
        from 1(1) [OF True Inr c r] True i1 show ?thesis
          by (auto simp: word_less_nat_alt word_le_nat_alt split: if_splits)
      qed
    qed
  qed
qed

lemma settle_cases:
  assumes "settle it = Inr it'"
  obtains j chain where "skip_empty (iter_table it) (iter_tableSize it) (iter_index it) = Inr j"
      and "j < iter_tableSize it" and "read_bucket (iter_table it) j = Inr chain" and "chain \<noteq> []"
      and "it' = it\<lparr>iter_index := j, iter_node := chain\<rparr>"
  | j where "skip_empty (iter_table it) (iter_tableSize it) (iter_index it) = Inr j"
      and "\<not> j < iter_tableSize it" and "it' = it\<lparr>iter_index := j, iter_node := []\<rparr>"
proof (cases "skip_empty (iter_table it) (iter_tableSize it) (iter_index it)")
  case (Inl e)
  with assms show ?thesis by (simp add: settle_def)
next
  case (Inr j)
  show ?thesis
  proof (cases "j < iter_tableSize it")
    case False
    with Inr assms have "it' = it\<lparr>iter_index := j, iter_node := []\<rparr>" by (simp add: settle_def)
    with Inr False that(2) show ?thesis by blast
  next
    case True
    show ?thesis
    proof (cases "read_bucket (iter_table it) j")
      case (Inl e)
      with Inr True assms show ?thesis by (simp add: settle_def)
    next
      case chain: (Inr chain)
      show ?thesis
      proof (cases "chain = []")
        case True
        with Inr \<open>j < iter_tableSize it\<close> chain assms show ?thesis by (simp add: settle_def)
      next
        case False
        with Inr True chain assms have "it' = it\<lparr>iter_index := j, iter_node := chain\<rparr>"
          by (simp add: settle_def)
        with Inr True chain False that(1) show ?thesis by blast
      qed
    qed
  qed
qed

lemma settle_facts:
  assumes "settle it = Inr it'"
  shows "iter_tableSize it' = iter_tableSize it"
    and "iter_node it' \<noteq> [] \<Longrightarrow> iter_index it' < iter_tableSize it"
    and "iter_index it < iter_tableSize it \<Longrightarrow> iter_index it \<le> iter_index it'"
proof -
  from assms show "iter_tableSize it' = iter_tableSize it"
    by (cases rule: settle_cases) simp_all
  from assms show "iter_node it' \<noteq> [] \<Longrightarrow> iter_index it' < iter_tableSize it"
    by (cases rule: settle_cases) simp_all
  assume lt: "iter_index it < iter_tableSize it"
  from assms show "iter_index it \<le> iter_index it'"
  proof (cases rule: settle_cases)
    case (1 j chain)
    from skip_empty_bounds [OF 1(1)] lt 1(5) show ?thesis by simp
  next
    case (2 j)
    from skip_empty_bounds [OF 2(1)] lt 2(3) show ?thesis by simp
  qed
qed

lemma Next_decreases:
  assumes "iter_node it \<noteq> []" and "Next it = Inr it'"
  shows "(it', it) \<in> measures [iter_past, iter_left, (\<lambda>it. length (iter_node it))]"
proof (cases "iter_node it")
  case Nil
  with assms show ?thesis by simp
next
  case (Cons n rest)
  show ?thesis
  proof (cases "rest = []")
    case False
    with Cons assms have "it' = it\<lparr>iter_node := rest\<rparr>" by (simp add: Next_def)
    with Cons False show ?thesis by (simp add: iter_past_def iter_left_def)
  next
    case True
    let ?it1 = "it\<lparr>iter_node := [], iter_index := iter_index it + 1\<rparr>"
    from True Cons assms have s: "settle ?it1 = Inr it'" by (simp add: Next_def)
    note f = settle_facts [OF s]
    show ?thesis
    proof (cases "iter_index it < iter_tableSize it")
      case False
      then have past: "iter_past it = 1" using assms(1) by (simp add: iter_past_def)
      have "iter_past it' = 0" using f(1,2) by (auto simp: iter_past_def)
      with past show ?thesis by simp
    next
      case lt: True
      then have p0: "iter_past it = 0" by (auto simp: iter_past_def)
      have p0': "iter_past it' = 0" using f(1,2) by (auto simp: iter_past_def)
      have i1: "unat (iter_index it + 1) = Suc (unat (iter_index it))"
        using lt by (rule unat_plus_one)
      have "unat (iter_index it) < unat (iter_index it')"
      proof (cases "iter_index it + 1 < iter_tableSize it")
        case True
        with f(3) have "iter_index it + 1 \<le> iter_index it'" by simp
        with i1 show ?thesis by (simp add: word_le_nat_alt)
      next
        case False
        then have "skip_empty (iter_table it) (iter_tableSize it) (iter_index it + 1) = Inr (iter_index it + 1)"
          by simp
        with s False have "iter_index it' = iter_index it + 1"
          by (auto simp: settle_def)
        with i1 show ?thesis by simp
      qed
      moreover have "unat (iter_index it) < unat (iter_tableSize it)"
        using lt by (simp add: word_less_nat_alt)
      ultimately have "iter_left it' < iter_left it"
        using f(1) unfolding iter_left_def by simp
      with p0 p0' show ?thesis by simp
    qed
  qed
qed

termination for_range
proof (relation "measures [iter_past, iter_left, (\<lambda>it. length (iter_node it))]", goal_cases)
  case 1
  show ?case by simp
next
  case (2 it it')
  then show ?case by (rule Next_decreases)
qed

lemma skip_empty_spec:
  "length bs = unat sz \<Longrightarrow> unat i \<le> length bs \<Longrightarrow>
     \<exists>j. skip_empty (Some bs) sz i = Inr j \<and> unat j \<le> length bs \<and>
         concat (drop (unat j) bs) = concat (drop (unat i) bs) \<and>
         (j < sz \<longrightarrow> bs ! unat j \<noteq> [])"
proof (induction "Some bs" sz i rule: skip_empty.induct)
  case (1 sz i)
  show ?case
  proof (cases "i < sz")
    case False
    with 1 show ?thesis by simp
  next
    case True
    then have ui: "unat i < length bs" using "1.prems" by (simp add: word_less_nat_alt)
    then have rd: "read_bucket (Some bs) i = Inr (bs ! unat i)" by (simp add: read_bucket_def)
    note i1 = unat_plus_one [OF True]
    show ?thesis
    proof (cases "bs ! unat i = []")
      case False
      with True rd "1.prems" show ?thesis by simp
    next
      case e: True
      have "unat (i + 1) \<le> length bs" using i1 ui by simp
      from "1.hyps" [OF True rd e "1.prems"(1) this] obtain j where
        j: "skip_empty (Some bs) sz (i + 1) = Inr j" "unat j \<le> length bs"
           "concat (drop (unat j) bs) = concat (drop (unat (i + 1)) bs)"
           "j < sz \<longrightarrow> bs ! unat j \<noteq> []" by blast
      have "drop (unat i) bs = bs ! unat i # drop (Suc (unat i)) bs"
        using ui by (simp add: Cons_nth_drop_Suc)
      with e i1 j(3) have "concat (drop (unat j) bs) = concat (drop (unat i) bs)" by simp
      with j True rd e show ?thesis by simp
    qed
  qed
qed

lemma settle_spec:
  assumes "iter_table it = Some bs" and "length bs = unat (iter_tableSize it)"
    and "unat (iter_index it) \<le> length bs"
  shows "\<exists>it'. settle it = Inr it' \<and> iter_table it' = Some bs \<and>
            iter_tableSize it' = iter_tableSize it \<and>
            (iter_node it' \<noteq> [] \<longrightarrow> iter_index it' < iter_tableSize it) \<and>
            (if iter_node it' = [] then []
             else iter_node it' @ concat (drop (Suc (unat (iter_index it'))) bs))
              = concat (drop (unat (iter_index it)) bs)"
proof -
  from skip_empty_spec [OF assms(2,3)] obtain j where
    j: "skip_empty (Some bs) (iter_tableSize it) (iter_index it) = Inr j" "unat j \<le> length bs"
       "concat (drop (unat j) bs) = concat (drop (unat (iter_index it)) bs)"
       "j < iter_tableSize it \<longrightarrow> bs ! unat j \<noteq> []" by blast
  show ?thesis
  proof (cases "j < iter_tableSize it")
    case True
    then have uj: "unat j < length bs" using assms(2) by (simp add: word_less_nat_alt)
    then have rd: "read_bucket (Some bs) j = Inr (bs ! unat j)" by (simp add: read_bucket_def)
    have "drop (unat j) bs = bs ! unat j # drop (Suc (unat j)) bs"
      using uj by (simp add: Cons_nth_drop_Suc)
    with j(3) have "bs ! unat j @ concat (drop (Suc (unat j)) bs)
        = concat (drop (unat (iter_index it)) bs)" by simp
    with True j(1,4) rd assms(1) show ?thesis by (simp add: settle_def)
  next
    case False
    then have "length bs \<le> unat j" using assms(2) by (simp add: word_less_nat_alt)
    then have "drop (unat j) bs = []" by simp
    with j(3) have "[] = concat (drop (unat (iter_index it)) bs)" by simp
    with False j(1) assms(1) show ?thesis by (simp add: settle_def)
  qed
qed

lemma for_range_spec:
  "iter_table it = Some bs \<Longrightarrow> length bs = unat (iter_tableSize it) \<Longrightarrow>
   (iter_node it \<noteq> [] \<longrightarrow> iter_index it < iter_tableSize it) \<Longrightarrow>
     for_range it =
       Inr (if iter_node it = [] then []
            else iter_node it @ concat (drop (Suc (unat (iter_index it))) bs))"
proof (induction it rule: for_range.induct)
  case (1 it)
  show ?case
  proof (cases "iter_node it")
    case Nil
    then show ?thesis by simp
  next
    case (Cons n rest)
    with "1.prems" have lt: "iter_index it < iter_tableSize it" by simp
    show ?thesis
    proof (cases "rest = []")
      case False
      let ?it' = "it\<lparr>iter_node := rest\<rparr>"
      have nx: "Next it = Inr ?it'" using Cons False by (simp add: Next_def)
      have "for_range ?it' = Inr (rest @ concat (drop (Suc (unat (iter_index it))) bs))"
        using "1.IH" [OF _ nx] Cons False "1.prems" by simp
      with nx Cons show ?thesis by simp
    next
      case True
      let ?it1 = "it\<lparr>iter_node := [], iter_index := iter_index it + 1\<rparr>"
      have i1: "unat (iter_index it + 1) = Suc (unat (iter_index it))"
        using lt by (rule unat_plus_one)
      have "unat (iter_index it) < length bs"
        using lt "1.prems" by (simp add: word_less_nat_alt)
      with i1 have le: "unat (iter_index ?it1) \<le> length bs" by simp
      from settle_spec [of ?it1 bs] "1.prems" le obtain it' where
        it': "settle ?it1 = Inr it'" "iter_table it' = Some bs"
          "iter_tableSize it' = iter_tableSize it"
          "iter_node it' \<noteq> [] \<longrightarrow> iter_index it' < iter_tableSize it"
          "(if iter_node it' = [] then []
            else iter_node it' @ concat (drop (Suc (unat (iter_index it'))) bs))
              = concat (drop (unat (iter_index ?it1)) bs)"
        by auto
      have nx: "Next it = Inr it'" using Cons True it'(1) by (simp add: Next_def)
      have "for_range it' =
          Inr (if iter_node it' = [] then []
               else iter_node it' @ concat (drop (Suc (unat (iter_index it'))) bs))"
        using "1.IH" [OF _ nx] Cons it'(2,3,4) "1.prems" by simp
      then have "for_range it' = Inr (concat (drop (Suc (unat (iter_index it))) bs))"
        using it'(5) i1 by simp
      then show ?thesis using nx Cons True by simp
    qed
  qed
qed

lemma KeyValueIteration_entries:
  assumes inv: "table_inv kf t" and small: "length (entries t) < 2 ^ 32"
  shows "KeyValueIteration t = Inr (entries t)"
proof (cases "m_table t")
  case None
  with inv show ?thesis
    by (simp add: KeyValueIteration_def NodeIterator_def table_inv_NoneD entries_def)
next
  case (Some bs)
  note d = table_inv_SomeD [OF inv Some]
  have cnt: "unat (m_tableCount t) = length (entries t)"
    using d(5) small Some by (simp add: entries_def unat_of_nat)
  let ?it = "\<lparr>iter_table = Some bs, iter_node = [],
               iter_tableSize = prime (m_tableSizeInfo t), iter_index = 0\<rparr>"
  show ?thesis
  proof (cases "0 < m_tableCount t")
    case False
    then have "m_tableCount t = 0" by (simp add: word_gt_0)
    with cnt have "entries t = []" by simp
    with False Some show ?thesis
      by (simp add: KeyValueIteration_def NodeIterator_def)
  next
    case True
    from settle_spec [of ?it bs] d(2) obtain it' where
      it': "settle ?it = Inr it'" "iter_table it' = Some bs"
        "iter_tableSize it' = prime (m_tableSizeInfo t)"
        "iter_node it' \<noteq> [] \<longrightarrow> iter_index it' < prime (m_tableSizeInfo t)"
        "(if iter_node it' = [] then []
          else iter_node it' @ concat (drop (Suc (unat (iter_index it'))) bs)) = concat bs"
      by auto
    have "for_range it' =
          Inr (if iter_node it' = [] then []
               else iter_node it' @ concat (drop (Suc (unat (iter_index it'))) bs))"
      using it'(2,3,4) d(2) by (intro for_range_spec) simp_all
    then have "for_range it' = Inr (concat bs)" using it'(5) by simp
    then show ?thesis using True Some it'(1)
      by (simp add: KeyValueIteration_def NodeIterator_def entries_def)
  qed
qed

subsection \<open>Sample inputs\<close>

lemma exact_sample_primes: "exact_table sample_primes"
  by (simp add: exact_table_def sample_primes_def magic_ok_exact magic_ok_def)

lemma def_equals_small: "def_equals JitSmallPrimitiveKeyFuncs"
  by (simp add: def_equals_def JitSmallPrimitiveKeyFuncs_def)

subsection \<open>Sequences of calls\<close>

lemma run_new_refines:
  assumes "def_equals kf" and "exact_table tbl" and "run tbl kf JitHashTable_new cs = Inr t"
  shows "table_inv kf t" and "map_of (entries t) = spec_map cs"
  using run_refines [OF assms(1,2) table_inv_new assms(3)]
  by (simp_all add: spec_map_def entries_def JitHashTable_new_def)

lemma dom_spec_call:
  "finite (dom m) \<Longrightarrow> finite (dom (spec_call m c)) \<and> card (dom (spec_call m c)) \<le> Suc (card (dom m))"
proof (cases c)
  case (CallRemove k)
  assume "finite (dom m)"
  then have "card (dom m - {k}) \<le> card (dom m)" by (intro card_mono) auto
  with \<open>finite (dom m)\<close> CallRemove show ?thesis by simp
qed (auto simp: card_insert_if)

lemma dom_foldl_spec_call:
  "finite (dom m) \<Longrightarrow>
     finite (dom (foldl spec_call m cs)) \<and>
     card (dom (foldl spec_call m cs)) \<le> card (dom m) + length cs"
proof (induction cs arbitrary: m)
  case Nil
  then show ?case by simp
next
  case (Cons c cs)
  from dom_spec_call [OF Cons.prems, of c] Cons.IH [of "spec_call m c"] show ?case by auto
qed

lemma card_dom_spec_map: "card (dom (spec_map cs)) \<le> length cs"
  using dom_foldl_spec_call [of Map.empty cs] by (simp add: spec_map_def)

lemma length_entries_card:
  assumes "table_inv kf t"
  shows "length (entries t) = card (dom (map_of (entries t)))"
proof -
  have "card (dom (map_of (entries t))) = card (set (map fst (entries t)))"
    by (simp add: dom_map_of_conv_image_fst)
  also have "\<dots> = length (map fst (entries t))"
    using distinct_entries [OF assms] by (rule distinct_card)
  finally show ?thesis by simp
qed

subsection \<open>The size requested by Grow\<close>





subsection \<open>The length of the bucket array\<close>




lemma bucket_set_simps:
  "m_tableSizeInfo (bucket_set t i c) = m_tableSizeInfo t"
  "m_tableMax (bucket_set t i c) = m_tableMax t"
  "m_table (bucket_set t i c) = None \<longleftrightarrow> m_table t = None"
  "table_length (bucket_set t i c) = table_length t"
  by (simp_all add: bucket_set_def table_length_def split: option.splits)









subsection \<open>Seven has no exact descriptor\<close>







subsection \<open>The outcomes of \<open>Set\<close>\<close>

lemma assign_val_map:
  "def_equals kf \<Longrightarrow> distinct (map fst c) \<Longrightarrow>
     assign_val kf k v c = map (\<lambda>n. if GetKey n = k then (GetKey n, v) else n) c"
proof (induction c)
  case Nil
  then show ?case by simp
next
  case (Cons n ns)
  show ?case
  proof (cases "fst n = k")
    case True
    with Cons.prems(2) have "\<forall>m \<in> set ns. fst m \<noteq> k" by (auto simp: image_iff)
    then have "map (\<lambda>n. if fst n = k then (fst n, v) else n) ns = ns"
      by (simp add: map_idI)
    with True Cons.prems(1) show ?thesis by (simp add: def_equals_def)
  next
    case False
    with Cons show ?thesis by (auto simp: def_equals_def)
  qed
qed

lemma with_value_explicit:
  assumes inv: "table_inv kf t" and tab: "m_table t = Some bs" and eq: "def_equals kf"
  shows "with_value kf t k v =
           t\<lparr>m_table := Some (bs[unat (GetHashCode kf k mod prime (m_tableSizeInfo t)) :=
                map (\<lambda>n. if GetKey n = k then (GetKey n, v) else n)
                  (bs ! unat (GetHashCode kf k mod prime (m_tableSizeInfo t)))])\<rparr>"
  using distinct_chain_of [OF inv tab, of k] assign_val_map [OF eq, of "chain_of kf t k" k v]
  by (simp add: with_value_def bucket_set_def tab chain_of_Some [OF tab])

lemma with_new_node_explicit:
  assumes tab: "m_table t = Some bs"
  shows "with_new_node kf t k v =
           t\<lparr>m_table := Some (bs[unat (GetHashCode kf k mod prime (m_tableSizeInfo t)) :=
                (k, v) # bs ! unat (GetHashCode kf k mod prime (m_tableSizeInfo t))]),
             m_tableCount := m_tableCount t + 1\<rparr>"
  by (simp add: with_new_node_def bucket_set_def tab chain_of_Some [OF tab])

lemma Set_explicit:
  assumes inv: "table_inv kf t" and eq: "def_equals kf" and tbl: "exact_table tbl"
    and cg: "CheckGrowth tbl kf t = Inr t1"
  shows "\<exists>bs. m_table t1 = Some bs \<and>
           Set tbl kf t k v kind =
             (let i = unat (GetHashCode kf k mod prime (m_tableSizeInfo t1))
              in if k \<in> GetKey ` set (entries t)
                 then (if kind = Overwrite
                       then Inr (True,
                              t1\<lparr>m_table := Some (bs[i :=
                                   map (\<lambda>n. if GetKey n = k then (GetKey n, v) else n) (bs ! i)])\<rparr>)
                       else Inl AssertionFailed)
                 else Inr (False,
                        t1\<lparr>m_table := Some (bs[i := (k, v) # bs ! i]),
                           m_tableCount := m_tableCount t1 + 1\<rparr>))"
proof -
  from CheckGrowth_inv(1,4) [OF inv tbl cg] obtain bs where
    inv1: "table_inv kf t1" and tab: "m_table t1 = Some bs" by auto
  have m: "map_of (entries t) k = None \<longleftrightarrow> k \<notin> fst ` set (entries t)"
    by (rule map_of_eq_None_iff)
  have "Set tbl kf t k v kind =
          (if k \<in> fst ` set (entries t)
           then (if kind = Overwrite then Inr (True, with_value kf t1 k v) else Inl AssertionFailed)
           else Inr (False, with_new_node kf t1 k v))"
    unfolding Set_eq [OF inv eq tbl] cg using m by (auto split: option.splits)
  then show ?thesis
    unfolding with_value_explicit [OF inv1 tab eq] with_new_node_explicit [OF tab]
    using tab by (simp add: Let_def)
qed

lemma Set_effect:
  assumes inv: "table_inv kf t" and eq: "def_equals kf" and tbl: "exact_table tbl"
    and ok: "Set tbl kf t k v kind = Inr (b, t')"
  shows "table_inv kf t'" and "map_of (entries t') = (map_of (entries t))(k \<mapsto> v)"
    and "GetCount t' = (if b then GetCount t else GetCount t + 1)"
    and "b \<longleftrightarrow> k \<in> GetKey ` set (entries t)"
proof -
  from ok obtain t1 where cg: "CheckGrowth tbl kf t = Inr t1"
    unfolding Set_eq [OF inv eq tbl] by (auto split: sum.splits)
  note c = CheckGrowth_inv [OF inv tbl cg]
  have m: "map_of (entries t) k = None \<longleftrightarrow> k \<notin> fst ` set (entries t)"
    by (rule map_of_eq_None_iff)
  have "table_inv kf t' \<and> map_of (entries t') = (map_of (entries t))(k \<mapsto> v) \<and>
    GetCount t' = (if b then GetCount t else GetCount t + 1) \<and>
    (b \<longleftrightarrow> k \<in> GetKey ` set (entries t))"
  proof (cases "map_of (entries t) k")
    case None
    with ok cg have r: "b = False" "t' = with_new_node kf t1 k v"
      unfolding Set_eq [OF inv eq tbl] by auto
    from None c(2) have a: "map_of (entries t1) k = None" by simp
    from with_new_node_inv [OF c(1) c(4) eq a, of v] r c(2) c(6) None m
    show ?thesis by (simp add: GetCount_def with_new_node_def)
  next
    case (Some old)
    with ok cg have r: "b = True" "t' = with_value kf t1 k v"
      unfolding Set_eq [OF inv eq tbl] by (auto split: if_splits)
    from Some c(2) have a: "map_of (entries t1) k = Some old" by simp
    from with_value_inv [OF c(1) c(4) eq a, of v] r c(2) c(6) Some m
    show ?thesis by (simp add: GetCount_def)
  qed
  then show "table_inv kf t'" "map_of (entries t') = (map_of (entries t))(k \<mapsto> v)"
    "GetCount t' = (if b then GetCount t else GetCount t + 1)"
    "b \<longleftrightarrow> k \<in> GetKey ` set (entries t)"
    by simp_all
qed

lemma Set_then_Lookup:
  assumes inv: "table_inv kf t" and eq: "def_equals kf" and tbl: "exact_table tbl"
    and ok: "Set tbl kf t k v kind = Inr (b, t')"
  shows "Lookup kf t' k' (Some x) = (if k' = k then Inr (True, Some v) else Lookup kf t k' (Some x))"
  unfolding Lookup_inv [OF Set_effect(1) [OF inv eq tbl ok] eq] Lookup_inv [OF inv eq]
    Set_effect(2) [OF inv eq tbl ok]
  by simp

subsection \<open>The growth scenario\<close>







section \<open>Properties\<close>

text \<open>
  C1. Take any sequence of calls that runs from the constructor without a fatal error or
  failed assertion. A key that the sequence has inserted (through \<open>Set\<close>,
  \<open>LookupPointerOrAdd\<close> or \<open>Emplace\<close>) and not removed afterwards is bound in \<open>spec_map\<close>
  to the value most recently set for it; \<open>Lookup\<close> on that key returns true and stores
  exactly that value through \<open>pVal\<close>.
\<close>

theorem Lookup_after_calls:
  assumes "def_equals kf" and "exact_table tbl"
    and "run tbl kf JitHashTable_new cs = Inr t"
    and "spec_map cs k = Some v"
  shows "Lookup kf t k (Some x) = Inr (True, Some v)"
  using run_new_refines [OF assms(1-3)] assms(4)
  by (simp add: Lookup_inv [OF _ assms(1)])

theorem Lookup_after_calls_witness:
  "def_equals JitSmallPrimitiveKeyFuncs \<and> exact_table sample_primes \<and>
   run sample_primes JitSmallPrimitiveKeyFuncs JitHashTable_new
     [CallSet 1 (10::nat) NoneKind, CallSet 2 20 NoneKind, CallSet 1 11 Overwrite, CallRemove 2]
   = Inr \<lparr>m_table = Some [[], [(1, 11)], [], [], [], [], [], [], [], [], []],
           m_tableSizeInfo = \<lparr>prime = 11, magic = 0xBA2E8BA3, shift = 3\<rparr>,
           m_tableCount = 1, m_tableMax = 8\<rparr> \<and>
   spec_map [CallSet (1::32 word) (10::nat) NoneKind, CallSet 2 20 NoneKind,
             CallSet 1 11 Overwrite, CallRemove 2] 1 = Some 11 \<and>
   Lookup JitSmallPrimitiveKeyFuncs
     \<lparr>m_table = Some [[], [(1, 11::nat)], [], [], [], [], [], [], [], [], []],
      m_tableSizeInfo = \<lparr>prime = 11, magic = 0xBA2E8BA3, shift = 3\<rparr>,
      m_tableCount = 1, m_tableMax = 8\<rparr> 1 (Some 0) = Inr (True, Some 11)"
proof -
  let ?cs = "[CallSet (1::32 word) (10::nat) NoneKind, CallSet 2 20 NoneKind,
              CallSet 1 11 Overwrite, CallRemove 2]"
  let ?t = "\<lparr>m_table = Some [[], [(1::32 word, 11::nat)], [], [], [], [], [], [], [], [], []],
             m_tableSizeInfo = \<lparr>prime = 11, magic = 0xBA2E8BA3, shift = 3\<rparr>,
             m_tableCount = 1, m_tableMax = 8\<rparr>"
  have r: "run sample_primes JitSmallPrimitiveKeyFuncs JitHashTable_new ?cs = Inr ?t"
    by code_simp
  have m: "spec_map ?cs 1 = Some 11" by (simp add: spec_map_def)
  from Lookup_after_calls [OF def_equals_small exact_sample_primes r m, of 0]
  show ?thesis using def_equals_small exact_sample_primes r m by blast
qed

text \<open>
  C2. A growth event is a call of \<open>Reallocate\<close> or \<open>Grow\<close> that returns. On a well-formed
  table it leaves every lookup as it was (each key present before is present after,
  with the same value, and no key appears), leaves \<open>GetCount\<close> as it was, and the nodes
  after it are the nodes before it, each exactly once; the table is well-formed again.
\<close>

theorem growth_keeps_entries:
  assumes "table_inv kf t" and "def_equals kf" and "exact_table tbl"
    and "Reallocate tbl kf t n = Inr t' \<or> Grow tbl kf t = Inr t'"
  shows "(\<forall>k pVal. Lookup kf t' k pVal = Lookup kf t k pVal) \<and>
         GetCount t' = GetCount t \<and>
         mset (entries t') = mset (entries t) \<and>
         table_inv kf t'"
proof -
  from assms(4) Reallocate_resized [OF assms(1,3)] Grow_resized [OF assms(1,3)]
  obtain d m where d: "NextPrime tbl m = Inr d" "t' = resized kf d t" by blast
  then have ex: "exact d" using assms(3) NextPrime_Inr by (auto simp: exact_table_def)
  have inv': "table_inv kf t'" using assms(1) ex d(2) by (simp add: table_inv_resized)
  have "map_of (entries t') = map_of (entries t)"
    using assms(1) ex d(2) by (simp add: map_of_entries_resized)
  then have "\<forall>k pVal. Lookup kf t' k pVal = Lookup kf t k pVal"
    by (simp add: Lookup_inv [OF inv' assms(2)] Lookup_inv [OF assms(1,2)])
  with inv' d(2) ex show ?thesis
    by (simp add: GetCount_def resized_simps mset_entries_resized)
qed

theorem growth_keeps_entries_witness:
  "table_inv JitSmallPrimitiveKeyFuncs
     \<lparr>m_table = Some [[], [(12, 20::nat), (1, 10)], [], [], [], [(5, 30)], [], [], [], [], []],
      m_tableSizeInfo = \<lparr>prime = 11, magic = 0xBA2E8BA3, shift = 3\<rparr>,
      m_tableCount = 3, m_tableMax = 8\<rparr> \<and>
   def_equals JitSmallPrimitiveKeyFuncs \<and> exact_table sample_primes \<and>
   Reallocate sample_primes JitSmallPrimitiveKeyFuncs
     \<lparr>m_table = Some [[], [(12, 20::nat), (1, 10)], [], [], [], [(5, 30)], [], [], [], [], []],
      m_tableSizeInfo = \<lparr>prime = 11, magic = 0xBA2E8BA3, shift = 3\<rparr>,
      m_tableCount = 3, m_tableMax = 8\<rparr> 20
   = Inr \<lparr>m_table = Some ([[], [(1, 10)], [], [], [], [(5, 30)], [], [], [], [], [], [],
                          [(12, 20)]] @ replicate 10 []),
           m_tableSizeInfo = \<lparr>prime = 23, magic = 0xB21642C9, shift = 4\<rparr>,
           m_tableCount = 3, m_tableMax = 17\<rparr> \<and>
   Lookup JitSmallPrimitiveKeyFuncs
     \<lparr>m_table = Some ([[], [(1, 10::nat)], [], [], [], [(5, 30)], [], [], [], [], [], [],
                          [(12, 20)]] @ replicate 10 []),
      m_tableSizeInfo = \<lparr>prime = 23, magic = 0xB21642C9, shift = 4\<rparr>,
      m_tableCount = 3, m_tableMax = 17\<rparr> 12 (Some 0) = Inr (True, Some 20)"
proof -
  let ?kf = "JitSmallPrimitiveKeyFuncs"
  let ?t = "\<lparr>m_table = Some [[], [(12::32 word, 20::nat), (1, 10)], [], [], [], [(5, 30)], [], [], [], [], []],
      m_tableSizeInfo = \<lparr>prime = 11, magic = 0xBA2E8BA3, shift = 3\<rparr>,
      m_tableCount = 3, m_tableMax = 8\<rparr>"
  let ?t' = "\<lparr>m_table = Some ([[], [(1::32 word, 10::nat)], [], [], [], [(5, 30)], [], [], [], [], [], [],
                          [(12, 20)]] @ replicate 10 []),
           m_tableSizeInfo = \<lparr>prime = 23, magic = 0xB21642C9, shift = 4\<rparr>,
           m_tableCount = 3, m_tableMax = 17\<rparr>"
  have r: "run sample_primes ?kf JitHashTable_new
             [CallSet 1 10 NoneKind, CallSet 12 20 NoneKind, CallSet 5 30 NoneKind] = Inr ?t"
    by code_simp
  have inv: "table_inv ?kf ?t"
    by (rule run_new_refines(1) [OF def_equals_small exact_sample_primes r])
  have g: "Reallocate sample_primes ?kf ?t 20 = Inr ?t'" by code_simp
  have l: "Lookup ?kf ?t 12 (Some 0) = Inr (True, Some 20)" by code_simp
  from growth_keeps_entries [OF inv def_equals_small exact_sample_primes disjI1 [OF g]] l
  have "Lookup ?kf ?t' 12 (Some 0) = Inr (True, Some 20)" by simp
  with inv def_equals_small exact_sample_primes g show ?thesis by blast
qed




text \<open>
  C5. As worded, the count would be the number of different keys ever inserted minus
  the number of keys removed. A key that is inserted, removed and inserted again is one
  key inserted and one key removed, yet the table holds one entry.
\<close>

theorem GetCount_reinsert_counterexample:
  "run sample_primes JitSmallPrimitiveKeyFuncs JitHashTable_new
     [CallSet 1 (10::nat) NoneKind, CallRemove 1, CallSet 1 11 NoneKind]
   = Inr \<lparr>m_table = Some [[], [(1, 11)], [], [], [], [], [], [], [], [], []],
           m_tableSizeInfo = \<lparr>prime = 11, magic = 0xBA2E8BA3, shift = 3\<rparr>,
           m_tableCount = 1, m_tableMax = 8\<rparr> \<and>
   unat (GetCount
     \<lparr>m_table = Some [[], [(1::32 word, 11::nat)], [], [], [], [], [], [], [], [], []],
      m_tableSizeInfo = \<lparr>prime = 11, magic = 0xBA2E8BA3, shift = 3\<rparr>,
      m_tableCount = 1, m_tableMax = 8\<rparr>) = 1 \<and>
   claimed_count [CallSet (1::32 word) (10::nat) NoneKind, CallRemove 1, CallSet 1 11 NoneKind] = 0"
proof -
  have "run sample_primes JitSmallPrimitiveKeyFuncs JitHashTable_new
     [CallSet 1 (10::nat) NoneKind, CallRemove 1, CallSet 1 11 NoneKind]
   = Inr \<lparr>m_table = Some [[], [(1, 11)], [], [], [], [], [], [], [], [], []],
           m_tableSizeInfo = \<lparr>prime = 11, magic = 0xBA2E8BA3, shift = 3\<rparr>,
           m_tableCount = 1, m_tableMax = 8\<rparr>"
    by code_simp
  moreover have "claimed_count [CallSet (1::32 word) (10::nat) NoneKind, CallRemove 1, CallSet 1 11 NoneKind] = 0"
    by (simp add: claimed_count_def)
  ultimately show ?thesis by (simp add: GetCount_def)
qed

text \<open>
  C5, amended. After any sequence of fewer than \<open>2 ^ 32\<close> calls that runs from the
  constructor without a fatal error or failed assertion, \<open>GetCount\<close> is the number of
  keys the table holds: the keys inserted and not removed since, a key inserted again
  after its removal counting again. \<open>Reallocate\<close> leaves the specification map alone, so
  growth does not change the count, and \<open>RemoveAll\<close> returns a table whose count is zero.
\<close>

theorem GetCount_after_calls:
  assumes "def_equals kf" and "exact_table tbl"
    and "run tbl kf JitHashTable_new cs = Inr t" and "length cs < 2 ^ 32"
  shows "unat (GetCount t) = card (dom (spec_map cs)) \<and>
         (\<exists>t'. RemoveAll t = Inr t' \<and> GetCount t' = 0)"
proof -
  note r = run_new_refines [OF assms(1-3)]
  have "length (entries t) = card (dom (spec_map cs))"
    using length_entries_card [OF r(1)] r(2) by simp
  moreover have "card (dom (spec_map cs)) < 2 ^ 32"
    using card_dom_spec_map [of cs] assms(4) by simp
  ultimately have "unat (GetCount t) = card (dom (spec_map cs))"
    using count_entries [OF r(1)] by (simp add: GetCount_def unat_of_nat)
  moreover have "RemoveAll t = Inr JitHashTable_new" by (rule RemoveAll_eq [OF r(1)])
  ultimately show ?thesis by (simp add: GetCount_def JitHashTable_new_def)
qed

theorem GetCount_after_calls_witness:
  "def_equals JitSmallPrimitiveKeyFuncs \<and> exact_table sample_primes \<and>
   run sample_primes JitSmallPrimitiveKeyFuncs JitHashTable_new
     [CallSet 1 (10::nat) NoneKind, CallRemove 1, CallSet 1 11 NoneKind, CallEmplace 12 5,
      CallReallocate 20]
   = Inr \<lparr>m_table = Some ([[], [(1, 11)], [], [], [], [], [], [], [], [], [], [], [(12, 5)]]
                           @ replicate 10 []),
           m_tableSizeInfo = \<lparr>prime = 23, magic = 0xB21642C9, shift = 4\<rparr>,
           m_tableCount = 2, m_tableMax = 17\<rparr> \<and>
   length [CallSet (1::32 word) (10::nat) NoneKind, CallRemove 1, CallSet 1 11 NoneKind,
           CallEmplace 12 5, CallReallocate 20] < 2 ^ 32 \<and>
   card (dom (spec_map [CallSet (1::32 word) (10::nat) NoneKind, CallRemove 1,
                        CallSet 1 11 NoneKind, CallEmplace 12 5, CallReallocate 20])) = 2"
proof -
  let ?cs = "[CallSet (1::32 word) (10::nat) NoneKind, CallRemove 1, CallSet 1 11 NoneKind,
              CallEmplace 12 5, CallReallocate 20]"
  let ?t = "\<lparr>m_table = Some ([[], [(1::32 word, 11::nat)], [], [], [], [], [], [], [], [], [], [], [(12, 5)]]
                           @ replicate 10 []),
           m_tableSizeInfo = \<lparr>prime = 23, magic = 0xB21642C9, shift = 4\<rparr>,
           m_tableCount = 2, m_tableMax = 17\<rparr>"
  have r: "run sample_primes JitSmallPrimitiveKeyFuncs JitHashTable_new ?cs = Inr ?t"
    by code_simp
  have l: "length ?cs < 2 ^ 32" by simp
  from GetCount_after_calls [OF def_equals_small exact_sample_primes r l]
  have "card (dom (spec_map ?cs)) = 2" by (simp add: GetCount_def)
  with def_equals_small exact_sample_primes r l show ?thesis by blast
qed

text \<open>
  C6. \<open>Remove\<close> on a key that is absent should return false without an error, also on a
  table that never allocated a bucket array. On the freshly constructed table the call
  has no defined result: \<open>GetIndexForKey\<close> reduces the hash with the default descriptor,
  whose prime is 0, and the bucket array that would be read next is null.
\<close>

theorem Remove_fresh_undefined:
  "Remove kf (JitHashTable_new :: ('k, 'v) JitHashTable) k = Inl UndefinedBehaviour"
  by (simp add: Remove_def GetIndexForKey_def magicNumberRem_def magicNumberDivide_def
      JitHashTable_new_def JitPrimeInfo_default_def)




text \<open>
  C8. On a well-formed table \<open>Set\<close> first runs the growth check, on the table as it is
  before the key is looked at, and an error of the growth check is the result. Otherwise
  the growth check returns a table \<open>t1\<close> with a bucket array \<open>bs\<close>, and with \<open>i\<close> the
  index of the key's bucket there: a key that is present with \<open>kind\<close> other than
  \<open>Overwrite\<close> fails the assertion; a key that is present with \<open>Overwrite\<close> gives true and
  the table \<open>t1\<close> in which the node of the key in bucket \<open>i\<close> carries the new value and
  nothing else differs; a key that is absent gives false and the table \<open>t1\<close> with the
  new node in front of bucket \<open>i\<close> and the count one higher. Whenever \<open>Set\<close> returns, the
  result tells whether the key was present, the count is unchanged for true and one
  higher for false, \<open>Lookup\<close> of the key finds the new value, and \<open>Lookup\<close> of any other
  key answers as before the call.
\<close>

theorem Set_behaviour:
  assumes "table_inv kf t" and "def_equals kf" and "exact_table tbl"
  shows "(\<forall>e. CheckGrowth tbl kf t = Inl e \<longrightarrow> Set tbl kf t k v kind = Inl e) \<and>
         (\<forall>t1. CheckGrowth tbl kf t = Inr t1 \<longrightarrow>
            (\<exists>bs. m_table t1 = Some bs \<and>
               Set tbl kf t k v kind =
                 (let i = unat (GetHashCode kf k mod prime (m_tableSizeInfo t1))
                  in if k \<in> GetKey ` set (entries t)
                     then (if kind = Overwrite
                           then Inr (True,
                                  t1\<lparr>m_table := Some (bs[i :=
                                       map (\<lambda>n. if GetKey n = k then (GetKey n, v) else n) (bs ! i)])\<rparr>)
                           else Inl AssertionFailed)
                     else Inr (False,
                            t1\<lparr>m_table := Some (bs[i := (k, v) # bs ! i]),
                               m_tableCount := m_tableCount t1 + 1\<rparr>)))) \<and>
         (\<forall>b t'. Set tbl kf t k v kind = Inr (b, t') \<longrightarrow>
            (b \<longleftrightarrow> k \<in> GetKey ` set (entries t)) \<and>
            GetCount t' = (if b then GetCount t else GetCount t + 1) \<and>
            (\<forall>k' x. Lookup kf t' k' (Some x) =
               (if k' = k then Inr (True, Some v) else Lookup kf t k' (Some x))))"
proof (intro conjI allI impI)
  fix e assume "CheckGrowth tbl kf t = Inl e"
  then show "Set tbl kf t k v kind = Inl e" by (simp add: Set_def)
next
  fix t1 assume "CheckGrowth tbl kf t = Inr t1"
  from Set_explicit [OF assms this]
  show "\<exists>bs. m_table t1 = Some bs \<and>
               Set tbl kf t k v kind =
                 (let i = unat (GetHashCode kf k mod prime (m_tableSizeInfo t1))
                  in if k \<in> GetKey ` set (entries t)
                     then (if kind = Overwrite
                           then Inr (True,
                                  t1\<lparr>m_table := Some (bs[i :=
                                       map (\<lambda>n. if GetKey n = k then (GetKey n, v) else n) (bs ! i)])\<rparr>)
                           else Inl AssertionFailed)
                     else Inr (False,
                            t1\<lparr>m_table := Some (bs[i := (k, v) # bs ! i]),
                               m_tableCount := m_tableCount t1 + 1\<rparr>))" .
next
  fix b t' assume ok: "Set tbl kf t k v kind = Inr (b, t')"
  show "b \<longleftrightarrow> k \<in> GetKey ` set (entries t)" by (rule Set_effect(4) [OF assms ok])
  show "GetCount t' = (if b then GetCount t else GetCount t + 1)" by (rule Set_effect(3) [OF assms ok])
  fix k' x
  show "Lookup kf t' k' (Some x) = (if k' = k then Inr (True, Some v) else Lookup kf t k' (Some x))"
    by (rule Set_then_Lookup [OF assms ok])
qed

theorem Set_behaviour_witness:
  "table_inv JitSmallPrimitiveKeyFuncs
     \<lparr>m_table = Some [[], [(1, 10::nat)], [], [], [], [], [], [], [], [], []],
      m_tableSizeInfo = \<lparr>prime = 11, magic = 0xBA2E8BA3, shift = 3\<rparr>,
      m_tableCount = 1, m_tableMax = 8\<rparr> \<and>
   def_equals JitSmallPrimitiveKeyFuncs \<and> exact_table sample_primes \<and>
   CheckGrowth sample_primes JitSmallPrimitiveKeyFuncs
     \<lparr>m_table = Some [[], [(1, 10::nat)], [], [], [], [], [], [], [], [], []],
      m_tableSizeInfo = \<lparr>prime = 11, magic = 0xBA2E8BA3, shift = 3\<rparr>,
      m_tableCount = 1, m_tableMax = 8\<rparr>
   = Inr \<lparr>m_table = Some [[], [(1, 10::nat)], [], [], [], [], [], [], [], [], []],
      m_tableSizeInfo = \<lparr>prime = 11, magic = 0xBA2E8BA3, shift = 3\<rparr>,
      m_tableCount = 1, m_tableMax = 8\<rparr> \<and>
   Set sample_primes JitSmallPrimitiveKeyFuncs
     \<lparr>m_table = Some [[], [(1, 10::nat)], [], [], [], [], [], [], [], [], []],
      m_tableSizeInfo = \<lparr>prime = 11, magic = 0xBA2E8BA3, shift = 3\<rparr>,
      m_tableCount = 1, m_tableMax = 8\<rparr> 1 11 NoneKind = Inl AssertionFailed \<and>
   Set sample_primes JitSmallPrimitiveKeyFuncs
     \<lparr>m_table = Some [[], [(1, 10::nat)], [], [], [], [], [], [], [], [], []],
      m_tableSizeInfo = \<lparr>prime = 11, magic = 0xBA2E8BA3, shift = 3\<rparr>,
      m_tableCount = 1, m_tableMax = 8\<rparr> 1 11 Overwrite
   = Inr (True,
       \<lparr>m_table = Some [[], [(1, 11::nat)], [], [], [], [], [], [], [], [], []],
      m_tableSizeInfo = \<lparr>prime = 11, magic = 0xBA2E8BA3, shift = 3\<rparr>,
      m_tableCount = 1, m_tableMax = 8\<rparr>) \<and>
   Lookup JitSmallPrimitiveKeyFuncs
     \<lparr>m_table = Some [[], [(1, 11::nat)], [], [], [], [], [], [], [], [], []],
      m_tableSizeInfo = \<lparr>prime = 11, magic = 0xBA2E8BA3, shift = 3\<rparr>,
      m_tableCount = 1, m_tableMax = 8\<rparr> 1 (Some 0)
   = Inr (True, Some 11) \<and>
   Set sample_primes JitSmallPrimitiveKeyFuncs
     \<lparr>m_table = Some [[], [(1, 10::nat)], [], [], [], [], [], [], [], [], []],
      m_tableSizeInfo = \<lparr>prime = 11, magic = 0xBA2E8BA3, shift = 3\<rparr>,
      m_tableCount = 1, m_tableMax = 8\<rparr> 12 11 NoneKind
   = Inr (False,
       \<lparr>m_table = Some [[], [(12, 11), (1, 10::nat)], [], [], [], [], [], [], [], [], []],
      m_tableSizeInfo = \<lparr>prime = 11, magic = 0xBA2E8BA3, shift = 3\<rparr>,
      m_tableCount = 2, m_tableMax = 8\<rparr>) \<and>
   table_inv JitSmallPrimitiveKeyFuncs (JitHashTable_new :: (32 word, nat) JitHashTable) \<and>
   exact_table [] \<and>
   CheckGrowth [] JitSmallPrimitiveKeyFuncs (JitHashTable_new :: (32 word, nat) JitHashTable)
   = Inl NoMemory \<and>
   Set [] JitSmallPrimitiveKeyFuncs (JitHashTable_new :: (32 word, nat) JitHashTable) 1 11 NoneKind
   = Inl NoMemory"
proof -
  let ?kf = "JitSmallPrimitiveKeyFuncs"
  let ?t = "\<lparr>m_table = Some [[], [(1, 10::nat)], [], [], [], [], [], [], [], [], []],
      m_tableSizeInfo = \<lparr>prime = 11, magic = 0xBA2E8BA3, shift = 3\<rparr>,
      m_tableCount = 1, m_tableMax = 8\<rparr>"
  let ?t1 = "\<lparr>m_table = Some [[], [(1, 11::nat)], [], [], [], [], [], [], [], [], []],
      m_tableSizeInfo = \<lparr>prime = 11, magic = 0xBA2E8BA3, shift = 3\<rparr>,
      m_tableCount = 1, m_tableMax = 8\<rparr>"
  let ?t2 = "\<lparr>m_table = Some [[], [(12, 11), (1, 10::nat)], [], [], [], [], [], [], [], [], []],
      m_tableSizeInfo = \<lparr>prime = 11, magic = 0xBA2E8BA3, shift = 3\<rparr>,
      m_tableCount = 2, m_tableMax = 8\<rparr>"
  let ?new = "JitHashTable_new :: (32 word, nat) JitHashTable"
  have r: "run sample_primes ?kf JitHashTable_new [CallSet 1 10 NoneKind] = Inr ?t"
    by code_simp
  have inv: "table_inv ?kf ?t"
    by (rule run_new_refines(1) [OF def_equals_small exact_sample_primes r])
  have cg: "CheckGrowth sample_primes ?kf ?t = Inr ?t" by code_simp
  have e: "entries ?t = [(1, 10)]" by (simp add: entries_def)
  have i: "unat (GetHashCode ?kf 1 mod (11 :: 32 word)) = 1"
    "unat (GetHashCode ?kf 12 mod (11 :: 32 word)) = 1"
    by (simp_all add: JitSmallPrimitiveKeyFuncs_def)
  note b = Set_behaviour [OF inv def_equals_small exact_sample_primes]
  from b [of 1 11 NoneKind] cg
  have s1: "Set sample_primes ?kf ?t 1 11 NoneKind = Inl AssertionFailed"
    by (simp add: e)
  from b [of 1 11 Overwrite] cg
  have s2: "Set sample_primes ?kf ?t 1 11 Overwrite = Inr (True, ?t1)"
    by (simp add: e i)
  from b [of 1 11 Overwrite, THEN conjunct2, THEN conjunct2, rule_format, OF s2]
  have l: "Lookup ?kf ?t1 1 (Some 0) = Inr (True, Some 11)"
    by simp
  from b [of 12 11 NoneKind] cg
  have s3: "Set sample_primes ?kf ?t 12 11 NoneKind = Inr (False, ?t2)"
    by (simp add: e i)
  have x: "exact_table []" by (simp add: exact_table_def)
  have cn: "CheckGrowth [] ?kf ?new = Inl NoMemory" by code_simp
  have s4: "Set [] ?kf ?new 1 11 NoneKind = Inl NoMemory"
    by (rule Set_behaviour [OF table_inv_new def_equals_small x, THEN conjunct1, rule_format, OF cn])
  from inv def_equals_small exact_sample_primes cg s1 s2 l s3 table_inv_new x cn s4
  show ?thesis by (intro conjI)
qed

text \<open>
  C9. On a well-formed table with fewer than \<open>2 ^ 32\<close> nodes and no call in between, a
  range-based \<open>for\<close> over \<open>KeyValueIteration\<close> ends and visits exactly the nodes of the
  table, bucket by bucket and each chain head first; \<open>KeyIteration\<close> and \<open>ValueIteration\<close>
  yield the keys and the values of the same nodes in the same order. The number of
  rounds is \<open>GetCount\<close>, no key comes twice, and a table without nodes gives no round.
\<close>

theorem iteration_visits_each_entry_once:
  assumes "table_inv kf t" and "length (entries t) < 2 ^ 32"
  shows "KeyValueIteration t = Inr (entries t) \<and>
         KeyIteration t = Inr (map GetKey (entries t)) \<and>
         ValueIteration t = Inr (map GetValue (entries t)) \<and>
         length (entries t) = unat (GetCount t) \<and>
         distinct (map GetKey (entries t))"
proof -
  have "unat (GetCount t) = length (entries t)"
    using count_entries [OF assms(1)] assms(2) by (simp add: GetCount_def unat_of_nat)
  then show ?thesis
    using KeyValueIteration_entries [OF assms] distinct_entries [OF assms(1)]
    by (simp add: KeyIteration_def ValueIteration_def)
qed

theorem iteration_visits_each_entry_once_witness:
  "table_inv JitSmallPrimitiveKeyFuncs
     \<lparr>m_table = Some [[], [(12, 20::nat), (1, 10)], [], [], [], [(5, 30)], [], [], [], [], []],
      m_tableSizeInfo = \<lparr>prime = 11, magic = 0xBA2E8BA3, shift = 3\<rparr>,
      m_tableCount = 3, m_tableMax = 8\<rparr> \<and>
   length (entries
     \<lparr>m_table = Some [[], [(12::32 word, 20::nat), (1, 10)], [], [], [], [(5, 30)], [], [], [], [], []],
      m_tableSizeInfo = \<lparr>prime = 11, magic = 0xBA2E8BA3, shift = 3\<rparr>,
      m_tableCount = 3, m_tableMax = 8\<rparr>) < 2 ^ 32 \<and>
   KeyIteration
     \<lparr>m_table = Some [[], [(12::32 word, 20::nat), (1, 10)], [], [], [], [(5, 30)], [], [], [], [], []],
      m_tableSizeInfo = \<lparr>prime = 11, magic = 0xBA2E8BA3, shift = 3\<rparr>,
      m_tableCount = 3, m_tableMax = 8\<rparr> = Inr [12, 1, 5]"
proof -
  let ?kf = "JitSmallPrimitiveKeyFuncs"
  let ?t = "\<lparr>m_table = Some [[], [(12::32 word, 20::nat), (1, 10)], [], [], [], [(5, 30)], [], [], [], [], []],
      m_tableSizeInfo = \<lparr>prime = 11, magic = 0xBA2E8BA3, shift = 3\<rparr>,
      m_tableCount = 3, m_tableMax = 8\<rparr>"
  have r: "run sample_primes ?kf JitHashTable_new
             [CallSet 1 10 NoneKind, CallSet 12 20 NoneKind, CallSet 5 30 NoneKind] = Inr ?t"
    by code_simp
  have inv: "table_inv ?kf ?t"
    by (rule run_new_refines(1) [OF def_equals_small exact_sample_primes r])
  have e: "entries ?t = [(12, 20), (1, 10), (5, 30)]" by (simp add: entries_def)
  then have l: "length (entries ?t) < 2 ^ 32" by simp
  from iteration_visits_each_entry_once [OF inv l] e
  have "KeyIteration ?t = Inr [12, 1, 5]" by simp
  with inv l show ?thesis by blast
qed

text \<open>
  C10. In a well-formed table, \<open>Lookup\<close> on a key that no node carries returns false and
  leaves the location behind \<open>pVal\<close> as it was; with \<open>pVal = nullptr\<close> it reports
  whether the key is present and there is no location to write to. \<open>Lookup\<close> is a \<open>const\<close>
  member and returns no table, so the table cannot change.
\<close>

theorem Lookup_absent_frame:
  assumes "table_inv kf t" and "def_equals kf"
  shows "(k \<notin> fst ` set (entries t) \<longrightarrow> Lookup kf t k pVal = Inr (False, pVal)) \<and>
         Lookup kf t k None = Inr (k \<in> fst ` set (entries t), None)"
proof -
  have "map_of (entries t) k = None \<longleftrightarrow> k \<notin> fst ` set (entries t)"
    by (rule map_of_eq_None_iff)
  then show ?thesis
    unfolding Lookup_inv [OF assms] by (auto split: option.splits)
qed

theorem Lookup_absent_frame_witness:
  "table_inv JitSmallPrimitiveKeyFuncs
     \<lparr>m_table = Some [[], [(1, 11::nat)], [], [], [], [], [], [], [], [], []],
      m_tableSizeInfo = \<lparr>prime = 11, magic = 0xBA2E8BA3, shift = 3\<rparr>,
      m_tableCount = 1, m_tableMax = 8\<rparr> \<and>
   def_equals JitSmallPrimitiveKeyFuncs \<and>
   Lookup JitSmallPrimitiveKeyFuncs
     \<lparr>m_table = Some [[], [(1, 11::nat)], [], [], [], [], [], [], [], [], []],
      m_tableSizeInfo = \<lparr>prime = 11, magic = 0xBA2E8BA3, shift = 3\<rparr>,
      m_tableCount = 1, m_tableMax = 8\<rparr> 12 (Some 7) = Inr (False, Some 7)"
proof -
  let ?cs = "[CallSet (1::32 word) (11::nat) NoneKind]"
  let ?t = "\<lparr>m_table = Some [[], [(1::32 word, 11::nat)], [], [], [], [], [], [], [], [], []],
             m_tableSizeInfo = \<lparr>prime = 11, magic = 0xBA2E8BA3, shift = 3\<rparr>,
             m_tableCount = 1, m_tableMax = 8\<rparr>"
  have r: "run sample_primes JitSmallPrimitiveKeyFuncs JitHashTable_new ?cs = Inr ?t"
    by code_simp
  have inv: "table_inv JitSmallPrimitiveKeyFuncs ?t"
    by (rule run_new_refines(1) [OF def_equals_small exact_sample_primes r])
  have "12 \<notin> fst ` set (entries ?t)" by (simp add: entries_def)
  with Lookup_absent_frame [OF inv def_equals_small, of 12 "Some 7"]
  show ?thesis using inv def_equals_small by blast
qed

end
